theory Spec2Isabelle
  imports Main "HOL-Library.Word"
begin

unbundle bit_operations_syntax

section \<open>Shared types\<close>

text \<open>
  The codec is the heatshrink LZSS encoder (\<^verbatim>\<open>src/unnamed/part_000\<close>) and decoder
  (\<^verbatim>\<open>src/heatshrink_decoder.c\<close>).  Machine integers are words of the width the C
  code gives them: \<^verbatim>\<open>uint8_t\<close> is \<open>8 word\<close>, \<^verbatim>\<open>uint16_t\<close> is \<open>16 word\<close>,
  \<^verbatim>\<open>uint32_t\<close> is \<open>32 word\<close>; \<^verbatim>\<open>size_t\<close> values are natural numbers (they never
  wrap in the code paths modelled, except where a subtraction is written out modulo
  \<open>2 ^ 64\<close>).  A caller's buffer (pointer and length) is a list of bytes; pointers are
  never null in the model, so the \<^verbatim>\<open>ERROR_NULL\<close> returns have no branch.
\<close>

type_synonym byte = "8 word"
type_synonym u16 = "16 word"
type_synonym u32 = "32 word"

text \<open>
  \<^verbatim>\<open>output_info\<close>: the caller's output buffer, its capacity and the 16-bit counter
  of bytes pushed so far (\<^verbatim>\<open>uint16_t *output_size\<close>).
\<close>

record output_info =
  buf :: "byte list"
  buf_size :: nat
  output_size :: u16

text \<open>
  A C access outside the object it indexes is undefined behaviour; the model makes it a
  value, so that memory safety is a statement about results.
\<close>

datatype fault = Input_region_overrun | Window_overrun | Output_overrun

section \<open>Decoder (\<^verbatim>\<open>heatshrink_decoder.c\<close>)\<close>

datatype HEATSHRINK_DECODER_STATE =
    HSDS_EMPTY
  | HSDS_INPUT_AVAILABLE
  | HSDS_YIELD_LITERAL
  | HSDS_BACKREF_INDEX
  | HSDS_BACKREF_COUNT
  | HSDS_YIELD_BACKREF
  | HSDS_CHECK_FOR_MORE_INPUT

datatype HEATSHRINK_DECODER_SINK_RES = HSDR_SINK_OK | HSDR_SINK_FULL | HSDR_SINK_ERROR_NULL

datatype HEATSHRINK_DECODER_POLL_RES =
  HSDR_POLL_EMPTY | HSDR_POLL_MORE | HSDR_POLL_ERROR_NULL | HSDR_POLL_ERROR_UNKNOWN

datatype HEATSHRINK_DECODER_FINISH_RES =
  HSDR_FINISH_DONE | HSDR_FINISH_MORE | HSDR_FINISH_ERROR_NULL

text \<open>
  \<^verbatim>\<open>heatshrink_decoder\<close>.  The struct is declared in \<^verbatim>\<open>heatshrink_decoder.h\<close>, which
  is not among the sources; the fields and their widths are the ones the code uses
  (16-bit sizes and indices, the 32-bit accumulator that \<^verbatim>\<open>get_bits\<close> returns, 8-bit
  configuration).  \<open>hsd_buffers\<close> is the flexible array: the input region
  (\<open>input_buffer_size\<close> bytes) followed by the history window (\<open>2 ^ window_sz2\<close> bytes).
\<close>

record heatshrink_decoder =
  hsd_input_size :: u16
  hsd_input_index :: u16
  hsd_output_count :: u16
  hsd_output_index :: u16
  hsd_head_index :: u16
  hsd_bit_accumulator :: u32
  hsd_state :: HEATSHRINK_DECODER_STATE
  hsd_current_byte :: byte
  hsd_bit_index :: byte
  hsd_window_sz2 :: byte
  hsd_lookahead_sz2 :: byte
  hsd_input_buffer_size :: u16
  hsd_buffers :: "byte list"

text \<open>
  The bounds of \<^verbatim>\<open>heatshrink_config.h\<close> (not among the sources), as the specification
  gives them: window bits in \<open>[4, 15]\<close>, lookahead bits at least \<open>3\<close>.
\<close>

definition HEATSHRINK_MIN_WINDOW_BITS :: byte where
  "HEATSHRINK_MIN_WINDOW_BITS = 4"

definition HEATSHRINK_MAX_WINDOW_BITS :: byte where
  "HEATSHRINK_MAX_WINDOW_BITS = 15"

definition HEATSHRINK_MIN_LOOKAHEAD_BITS :: byte where
  "HEATSHRINK_MIN_LOOKAHEAD_BITS = 3"

text \<open>\<^verbatim>\<open>heatshrink_decoder_reset\<close>: zero the buffers and every mutable field.\<close>

definition heatshrink_decoder_reset :: "heatshrink_decoder \<Rightarrow> heatshrink_decoder" where
  "heatshrink_decoder_reset hsd =
     hsd\<lparr> hsd_buffers := replicate (length (hsd_buffers hsd)) 0,
          hsd_state := HSDS_EMPTY,
          hsd_input_size := 0,
          hsd_input_index := 0,
          hsd_bit_index := 0,
          hsd_current_byte := 0,
          hsd_output_count := 0,
          hsd_output_index := 0,
          hsd_head_index := 0,
          hsd_bit_accumulator := 0 \<rparr>"

text \<open>
  \<^verbatim>\<open>heatshrink_decoder_alloc\<close>: \<open>None\<close> is the \<^verbatim>\<open>NULL\<close> return for parameters out of
  bounds (allocation itself does not fail in the model).
\<close>

definition heatshrink_decoder_alloc :: "u16 \<Rightarrow> byte \<Rightarrow> byte \<Rightarrow> heatshrink_decoder option" where
  "heatshrink_decoder_alloc input_buffer_size window_sz2 lookahead_sz2 =
     (if window_sz2 < HEATSHRINK_MIN_WINDOW_BITS \<or>
         window_sz2 > HEATSHRINK_MAX_WINDOW_BITS \<or>
         input_buffer_size = 0 \<or>
         lookahead_sz2 < HEATSHRINK_MIN_LOOKAHEAD_BITS \<or>
         lookahead_sz2 > window_sz2
      then None
      else Some (heatshrink_decoder_reset
        \<lparr> hsd_input_size = 0, hsd_input_index = 0, hsd_output_count = 0,
          hsd_output_index = 0, hsd_head_index = 0, hsd_bit_accumulator = 0,
          hsd_state = HSDS_EMPTY, hsd_current_byte = 0, hsd_bit_index = 0,
          hsd_window_sz2 = window_sz2, hsd_lookahead_sz2 = lookahead_sz2,
          hsd_input_buffer_size = input_buffer_size,
          hsd_buffers = replicate (2 ^ unat window_sz2 + unat input_buffer_size) 0 \<rparr>))"

text \<open>
  \<^verbatim>\<open>memcpy(&dst[off], src, n)\<close> on lists, for \<open>off + n \<le> length dst\<close> and
  \<open>n \<le> length src\<close>.
\<close>

definition memcpy_at :: "byte list \<Rightarrow> nat \<Rightarrow> byte list \<Rightarrow> nat \<Rightarrow> byte list" where
  "memcpy_at dst off src n = take off dst @ take n src @ drop (off + n) dst"

text \<open>
  \<^verbatim>\<open>heatshrink_decoder_sink\<close>.  \<open>rem\<close> is a \<^verbatim>\<open>size_t\<close>: the difference of the two
  16-bit fields, taken modulo \<open>2 ^ 64\<close>.  The copy lands in the input region; the model
  faults when it would pass the region's end.  The result carries the value stored
  through \<^verbatim>\<open>input_size\<close> (the count of bytes accepted).
\<close>

definition heatshrink_decoder_sink ::
  "heatshrink_decoder \<Rightarrow> byte list \<Rightarrow>
     fault + (HEATSHRINK_DECODER_SINK_RES \<times> u16 \<times> heatshrink_decoder)" where
  "heatshrink_decoder_sink hsd in_buf =
     (let rem = nat ((uint (hsd_input_buffer_size hsd) - uint (hsd_input_size hsd)) mod 2 ^ 64)
      in if rem = 0 then Inr (HSDR_SINK_FULL, 0, hsd)
         else
           let size = (if rem < length in_buf then rem else length in_buf)
           in if unat (hsd_input_size hsd) + size \<le> unat (hsd_input_buffer_size hsd) \<and>
                 unat (hsd_input_size hsd) + size \<le> length (hsd_buffers hsd)
              then
                let hsd1 = hsd\<lparr> hsd_buffers :=
                                   memcpy_at (hsd_buffers hsd) (unat (hsd_input_size hsd)) in_buf size,
                                 hsd_input_size := hsd_input_size hsd + of_nat size \<rparr>;
                    hsd2 = (if hsd_state hsd1 = HSDS_EMPTY
                            then hsd1\<lparr> hsd_state := HSDS_INPUT_AVAILABLE, hsd_input_index := 0 \<rparr>
                            else hsd1)
                in Inr (HSDR_SINK_OK, of_nat size, hsd2)
              else Inl Input_region_overrun)"

text \<open>
  \<^verbatim>\<open>get_bits\<close>, the body of its \<^verbatim>\<open>for\<close> loop in two parts: pulling the next input
  byte when \<open>bit_index\<close> is \<open>0\<close>, and shifting one bit into the accumulator.
\<close>

definition get_bits_pull :: "heatshrink_decoder \<Rightarrow> fault + heatshrink_decoder" where
  "get_bits_pull hsd =
     (if unat (hsd_input_index hsd) < unat (hsd_input_buffer_size hsd) \<and>
         unat (hsd_input_index hsd) < length (hsd_buffers hsd)
      then
        let hsd1 = hsd\<lparr> hsd_current_byte := hsd_buffers hsd ! unat (hsd_input_index hsd),
                         hsd_input_index := hsd_input_index hsd + 1 \<rparr>;
            hsd2 = (if hsd_input_index hsd1 = hsd_input_size hsd1
                    then hsd1\<lparr> hsd_input_index := 0, hsd_input_size := 0 \<rparr>
                    else hsd1)
        in Inr (hsd2\<lparr> hsd_bit_index := 0x80 \<rparr>)
      else Inl Input_region_overrun)"

definition get_bits_shift :: "heatshrink_decoder \<Rightarrow> heatshrink_decoder" where
  "get_bits_shift hsd =
     (let acc = push_bit 1 (hsd_bit_accumulator hsd);
          acc' = (if hsd_current_byte hsd AND hsd_bit_index hsd \<noteq> 0 then acc OR 1 else acc)
      in hsd\<lparr> hsd_bit_accumulator := acc', hsd_bit_index := drop_bit 1 (hsd_bit_index hsd) \<rparr>)"

text \<open>
  The loop \<^verbatim>\<open>for (i = 0; i < count; i++)\<close>, by recursion on the iterations left.  The
  flag is \<open>False\<close> when the loop left through \<^verbatim>\<open>return (uint32_t)-1\<close>.
\<close>

fun get_bits_loop :: "nat \<Rightarrow> heatshrink_decoder \<Rightarrow> fault + (bool \<times> heatshrink_decoder)" where
  "get_bits_loop 0 hsd = Inr (True, hsd)"
| "get_bits_loop (Suc n) hsd =
     (if hsd_bit_index hsd = 0
      then (if hsd_input_size hsd = 0 then Inr (False, hsd)
            else (case get_bits_pull hsd of
                    Inl f \<Rightarrow> Inl f
                  | Inr hsd' \<Rightarrow> get_bits_loop n (get_bits_shift hsd')))
      else get_bits_loop n (get_bits_shift hsd))"

text \<open>
  \<^verbatim>\<open>get_bits\<close>.  The result \<open>- 1\<close> (\<^verbatim>\<open>(uint32_t)-1\<close>) is the underflow signal.  The
  early test compares \<open>bit_index\<close> with \<^verbatim>\<open>1 << (count - 1)\<close>; \<open>count\<close> is at least \<open>1\<close>
  at every call of the code.
\<close>

definition get_bits :: "heatshrink_decoder \<Rightarrow> byte \<Rightarrow> fault + (u32 \<times> heatshrink_decoder)" where
  "get_bits hsd count =
     (if count > 31 then Inr (- 1, hsd)
      else if hsd_input_size hsd = 0 \<and> unat (hsd_bit_index hsd) < 2 ^ (unat count - 1)
      then Inr (- 1, hsd)
      else (case get_bits_loop (unat count) hsd of
              Inl f \<Rightarrow> Inl f
            | Inr (False, hsd') \<Rightarrow> Inr (- 1, hsd')
            | Inr (True, hsd') \<Rightarrow>
                Inr (hsd_bit_accumulator hsd', hsd'\<lparr> hsd_bit_accumulator := 0 \<rparr>)))"

text \<open>\<^verbatim>\<open>push_byte\<close>: \<^verbatim>\<open>oi->buf[(*oi->output_size)++] = byte\<close>.\<close>

definition push_byte :: "output_info \<Rightarrow> byte \<Rightarrow> fault + output_info" where
  "push_byte oi b =
     (if unat (output_size oi) < length (buf oi)
      then Inr (oi\<lparr> buf := (buf oi)[unat (output_size oi) := b],
                     output_size := output_size oi + 1 \<rparr>)
      else Inl Output_overrun)"

text \<open>
  The history window is \<^verbatim>\<open>&hsd->buffers[input_buffer_size]\<close>; an access at offset \<open>i\<close>
  is in bounds when it stays inside the flexible array.
\<close>

definition window_read :: "heatshrink_decoder \<Rightarrow> u16 \<Rightarrow> fault + byte" where
  "window_read hsd i =
     (if unat (hsd_input_buffer_size hsd) + unat i < length (hsd_buffers hsd)
      then Inr (hsd_buffers hsd ! (unat (hsd_input_buffer_size hsd) + unat i))
      else Inl Window_overrun)"

definition window_write :: "heatshrink_decoder \<Rightarrow> u16 \<Rightarrow> byte \<Rightarrow> fault + heatshrink_decoder" where
  "window_write hsd i c =
     (if unat (hsd_input_buffer_size hsd) + unat i < length (hsd_buffers hsd)
      then Inr (hsd\<lparr> hsd_buffers :=
                       (hsd_buffers hsd)[unat (hsd_input_buffer_size hsd) + unat i := c] \<rparr>)
      else Inl Window_overrun)"

definition window_mask :: "heatshrink_decoder \<Rightarrow> u16" where
  "window_mask hsd = push_bit (unat (hsd_window_sz2 hsd)) 1 - 1"

definition st_input_available ::
  "heatshrink_decoder \<Rightarrow> fault + (HEATSHRINK_DECODER_STATE \<times> heatshrink_decoder)" where
  "st_input_available hsd =
     (case get_bits hsd 1 of
        Inl f \<Rightarrow> Inl f
      | Inr (bits, hsd') \<Rightarrow>
          Inr (if bits \<noteq> 0 then HSDS_YIELD_LITERAL else HSDS_BACKREF_INDEX, hsd'))"

definition hsd_st_yield_literal ::
  "heatshrink_decoder \<Rightarrow> output_info \<Rightarrow>
     fault + (HEATSHRINK_DECODER_STATE \<times> heatshrink_decoder \<times> output_info)" where
  "hsd_st_yield_literal hsd oi =
     (if unat (output_size oi) < buf_size oi
      then (case get_bits hsd 8 of
              Inl f \<Rightarrow> Inl f
            | Inr (byte, hsd1) \<Rightarrow>
                if byte = - 1 then Inr (HSDS_YIELD_LITERAL, hsd1, oi)
                else
                  let c = (ucast (byte AND 0xFF) :: byte)
                  in (case window_write hsd1 (hsd_head_index hsd1 AND window_mask hsd1) c of
                        Inl f \<Rightarrow> Inl f
                      | Inr hsd2 \<Rightarrow>
                          (case push_byte oi c of
                             Inl f \<Rightarrow> Inl f
                           | Inr oi' \<Rightarrow>
                               Inr (HSDS_CHECK_FOR_MORE_INPUT,
                                    hsd2\<lparr> hsd_head_index := hsd_head_index hsd2 + 1 \<rparr>, oi'))))
      else Inr (HSDS_YIELD_LITERAL, hsd, oi))"

definition st_backref_index ::
  "heatshrink_decoder \<Rightarrow> fault + (HEATSHRINK_DECODER_STATE \<times> heatshrink_decoder)" where
  "st_backref_index hsd =
     (case get_bits hsd (hsd_window_sz2 hsd) of
        Inl f \<Rightarrow> Inl f
      | Inr (bits, hsd') \<Rightarrow>
          if bits = - 1 then Inr (HSDS_BACKREF_INDEX, hsd')
          else Inr (HSDS_BACKREF_COUNT, hsd'\<lparr> hsd_output_index := ucast (bits + 1) \<rparr>))"

definition st_backref_count ::
  "heatshrink_decoder \<Rightarrow> fault + (HEATSHRINK_DECODER_STATE \<times> heatshrink_decoder)" where
  "st_backref_count hsd =
     (case get_bits hsd (hsd_lookahead_sz2 hsd) of
        Inl f \<Rightarrow> Inl f
      | Inr (bits, hsd') \<Rightarrow>
          if bits = - 1 then Inr (HSDS_BACKREF_COUNT, hsd')
          else Inr (HSDS_YIELD_BACKREF, hsd'\<lparr> hsd_output_count := ucast (bits + 1) \<rparr>))"

text \<open>
  The copy loop of \<^verbatim>\<open>st_yield_backref\<close>: read one byte \<open>neg_offset\<close> behind the head,
  push it, write it at the head, advance the head.
\<close>

fun yield_backref_loop ::
  "nat \<Rightarrow> u16 \<Rightarrow> heatshrink_decoder \<Rightarrow> output_info \<Rightarrow>
     fault + (heatshrink_decoder \<times> output_info)" where
  "yield_backref_loop 0 neg_offset hsd oi = Inr (hsd, oi)"
| "yield_backref_loop (Suc n) neg_offset hsd oi =
     (case window_read hsd ((hsd_head_index hsd - neg_offset) AND window_mask hsd) of
        Inl f \<Rightarrow> Inl f
      | Inr c \<Rightarrow>
          (case push_byte oi c of
             Inl f \<Rightarrow> Inl f
           | Inr oi' \<Rightarrow>
               (case window_write hsd (hsd_head_index hsd AND window_mask hsd) c of
                  Inl f \<Rightarrow> Inl f
                | Inr hsd' \<Rightarrow>
                    yield_backref_loop n neg_offset
                      (hsd'\<lparr> hsd_head_index := hsd_head_index hsd' + 1 \<rparr>) oi')))"

definition st_yield_backref ::
  "heatshrink_decoder \<Rightarrow> output_info \<Rightarrow>
     fault + (HEATSHRINK_DECODER_STATE \<times> heatshrink_decoder \<times> output_info)" where
  "st_yield_backref hsd oi =
     (let count = nat ((int (buf_size oi) - uint (output_size oi)) mod 2 ^ 64)
      in if count > 0
         then
           let count' = (if unat (hsd_output_count hsd) < count
                         then unat (hsd_output_count hsd) else count)
           in (case yield_backref_loop count' (hsd_output_index hsd) hsd oi of
                 Inl f \<Rightarrow> Inl f
               | Inr (hsd1, oi') \<Rightarrow>
                   let hsd2 = hsd1\<lparr> hsd_output_count := hsd_output_count hsd1 - of_nat count' \<rparr>
                   in if hsd_output_count hsd2 = 0
                      then Inr (HSDS_CHECK_FOR_MORE_INPUT, hsd2, oi')
                      else Inr (HSDS_YIELD_BACKREF, hsd2, oi'))
         else Inr (HSDS_YIELD_BACKREF, hsd, oi))"

definition st_check_for_input :: "heatshrink_decoder \<Rightarrow> HEATSHRINK_DECODER_STATE" where
  "st_check_for_input hsd =
     (if hsd_input_size hsd = 0 then HSDS_EMPTY else HSDS_INPUT_AVAILABLE)"

text \<open>
  One turn of the \<^verbatim>\<open>while (1)\<close> loop of \<^verbatim>\<open>heatshrink_decoder_poll\<close>: the \<^verbatim>\<open>switch\<close>
  and the test after it.  \<open>Some r\<close> is \<^verbatim>\<open>return r\<close>; \<open>None\<close> goes round again.
\<close>

definition decoder_poll_switch ::
  "heatshrink_decoder \<Rightarrow> output_info \<Rightarrow>
     fault + (HEATSHRINK_DECODER_STATE \<times> heatshrink_decoder \<times> output_info)" where
  "decoder_poll_switch hsd oi =
     (case hsd_state hsd of
        HSDS_EMPTY \<Rightarrow> Inr (HSDS_EMPTY, hsd, oi)
      | HSDS_INPUT_AVAILABLE \<Rightarrow>
          (case st_input_available hsd of Inl f \<Rightarrow> Inl f | Inr (st, hsd') \<Rightarrow> Inr (st, hsd', oi))
      | HSDS_YIELD_LITERAL \<Rightarrow> hsd_st_yield_literal hsd oi
      | HSDS_BACKREF_INDEX \<Rightarrow>
          (case st_backref_index hsd of Inl f \<Rightarrow> Inl f | Inr (st, hsd') \<Rightarrow> Inr (st, hsd', oi))
      | HSDS_BACKREF_COUNT \<Rightarrow>
          (case st_backref_count hsd of Inl f \<Rightarrow> Inl f | Inr (st, hsd') \<Rightarrow> Inr (st, hsd', oi))
      | HSDS_YIELD_BACKREF \<Rightarrow> st_yield_backref hsd oi
      | HSDS_CHECK_FOR_MORE_INPUT \<Rightarrow> Inr (st_check_for_input hsd, hsd, oi))"

definition decoder_poll_step ::
  "heatshrink_decoder \<Rightarrow> output_info \<Rightarrow>
     fault + (HEATSHRINK_DECODER_POLL_RES option \<times> heatshrink_decoder \<times> output_info)" where
  "decoder_poll_step hsd oi =
     (if hsd_state hsd = HSDS_EMPTY then Inr (Some HSDR_POLL_EMPTY, hsd, oi)
      else (case decoder_poll_switch hsd oi of
              Inl f \<Rightarrow> Inl f
            | Inr (st, hsd', oi') \<Rightarrow>
                if st = hsd_state hsd
                then (if unat (output_size oi') = buf_size oi'
                      then Inr (Some HSDR_POLL_MORE, hsd'\<lparr> hsd_state := st \<rparr>, oi')
                      else Inr (Some HSDR_POLL_EMPTY, hsd'\<lparr> hsd_state := st \<rparr>, oi'))
                else Inr (None, hsd'\<lparr> hsd_state := st \<rparr>, oi')))"

partial_function (option) decoder_poll_loop ::
  "heatshrink_decoder \<Rightarrow> output_info \<Rightarrow>
     (fault + (HEATSHRINK_DECODER_POLL_RES \<times> heatshrink_decoder \<times> output_info)) option" where
  "decoder_poll_loop hsd oi =
     (case decoder_poll_step hsd oi of
        Inl f \<Rightarrow> Some (Inl f)
      | Inr (Some r, hsd', oi') \<Rightarrow> Some (Inr (r, hsd', oi'))
      | Inr (None, hsd', oi') \<Rightarrow> decoder_poll_loop hsd' oi')"

text \<open>
  \<^verbatim>\<open>heatshrink_decoder_poll\<close>: the caller's buffer is \<open>out_buf\<close>, its capacity
  \<^verbatim>\<open>out_buf_size\<close> the list's length.  There is no test of the capacity.  The result is
  \<open>None\<close> when the loop does not return.
\<close>

definition heatshrink_decoder_poll ::
  "heatshrink_decoder \<Rightarrow> byte list \<Rightarrow>
     (fault + (HEATSHRINK_DECODER_POLL_RES \<times> heatshrink_decoder \<times> output_info)) option" where
  "heatshrink_decoder_poll hsd out_buf =
     decoder_poll_loop hsd \<lparr> buf = out_buf, buf_size = length out_buf, output_size = 0 \<rparr>"

definition heatshrink_decoder_finish :: "heatshrink_decoder \<Rightarrow> HEATSHRINK_DECODER_FINISH_RES" where
  "heatshrink_decoder_finish hsd =
     (case hsd_state hsd of
        HSDS_EMPTY \<Rightarrow> HSDR_FINISH_DONE
      | HSDS_BACKREF_INDEX \<Rightarrow>
          (if hsd_input_size hsd = 0 then HSDR_FINISH_DONE else HSDR_FINISH_MORE)
      | HSDS_BACKREF_COUNT \<Rightarrow>
          (if hsd_input_size hsd = 0 then HSDR_FINISH_DONE else HSDR_FINISH_MORE)
      | _ \<Rightarrow> HSDR_FINISH_MORE)"

declare decoder_poll_loop.simps [code]

section \<open>Encoder (\<^verbatim>\<open>src/unnamed/part_000\<close>, the file \<^verbatim>\<open>heatshrink_encoder.c\<close>)\<close>

datatype HEATSHRINK_ENCODER_STATE =
    HSES_NOT_FULL
  | HSES_FILLED
  | HSES_SEARCH
  | HSES_YIELD_TAG_BIT
  | HSES_YIELD_LITERAL
  | HSES_YIELD_BR_INDEX
  | HSES_YIELD_BR_LENGTH
  | HSES_SAVE_BACKLOG
  | HSES_FLUSH_BITS
  | HSES_DONE

datatype HEATSHRINK_ENCODER_SINK_RES =
  HSER_SINK_OK | HSER_SINK_ERROR_NULL | HSER_SINK_ERROR_MISUSE

datatype HEATSHRINK_ENCODER_POLL_RES =
  HSER_POLL_EMPTY | HSER_POLL_MORE | HSER_POLL_ERROR_NULL | HSER_POLL_ERROR_MISUSE

datatype HEATSHRINK_ENCODER_FINISH_RES =
  HSER_FINISH_DONE | HSER_FINISH_MORE | HSER_FINISH_ERROR_NULL

definition FLAG_IS_FINISHING :: byte where "FLAG_IS_FINISHING = 0x01"
definition FLAG_HAS_LITERAL :: byte where "FLAG_HAS_LITERAL = 0x02"
definition FLAG_ON_FINAL_LITERAL :: byte where "FLAG_ON_FINAL_LITERAL = 0x04"
definition FLAG_BACKLOG_IS_PARTIAL :: byte where "FLAG_BACKLOG_IS_PARTIAL = 0x08"
definition FLAG_BACKLOG_IS_FILLED :: byte where "FLAG_BACKLOG_IS_FILLED = 0x10"

definition MATCH_NOT_FOUND :: u16 where "MATCH_NOT_FOUND = - 1"

definition HEATSHRINK_LITERAL_MARKER :: byte where "HEATSHRINK_LITERAL_MARKER = 0x01"
definition HEATSHRINK_BACKREF_MARKER :: byte where "HEATSHRINK_BACKREF_MARKER = 0x00"

text \<open>
  \<^verbatim>\<open>heatshrink_encoder\<close>.  The struct is declared in \<^verbatim>\<open>heatshrink_encoder.h\<close>, which
  is not among the sources; the fields and widths are the ones the code uses.
  \<open>hse_search_index\<close> is the array \<^verbatim>\<open>hse->search_index->index\<close> of the optional
  byte-chain index, \<open>hse_buffer\<close> the flexible array of \<open>2 * 2 ^ window_sz2\<close> bytes.
\<close>

record heatshrink_encoder =
  hse_input_size :: u16
  hse_match_scan_index :: u16
  hse_match_length :: u16
  hse_match_pos :: u16
  hse_outgoing_bits :: u16
  hse_outgoing_bits_count :: byte
  hse_flags :: byte
  hse_state :: HEATSHRINK_ENCODER_STATE
  hse_current_byte :: byte
  hse_bit_index :: byte
  hse_window_sz2 :: byte
  hse_lookahead_sz2 :: byte
  hse_search_index :: "u16 list"
  hse_buffer :: "byte list"

definition heatshrink_encoder_reset :: "heatshrink_encoder \<Rightarrow> heatshrink_encoder" where
  "heatshrink_encoder_reset hse =
     hse\<lparr> hse_buffer := replicate (length (hse_buffer hse)) 0,
          hse_input_size := 0,
          hse_state := HSES_NOT_FULL,
          hse_match_scan_index := 0,
          hse_flags := 0,
          hse_bit_index := 0x80,
          hse_current_byte := 0,
          hse_match_length := 0,
          hse_outgoing_bits := 0,
          hse_outgoing_bits_count := 0 \<rparr>"

text \<open>
  \<^verbatim>\<open>heatshrink_encoder_alloc\<close>.  The function leaves \<^verbatim>\<open>match_pos\<close> and the entries of
  the search index as \<^verbatim>\<open>malloc\<close> returned them; the model takes these as the arguments
  \<open>mp\<close> and \<open>idx\<close> (\<open>idx\<close> of one entry per buffer byte).
\<close>

definition heatshrink_encoder_alloc ::
  "byte \<Rightarrow> byte \<Rightarrow> u16 \<Rightarrow> u16 list \<Rightarrow> heatshrink_encoder option" where
  "heatshrink_encoder_alloc window_sz2 lookahead_sz2 mp idx =
     (if window_sz2 < HEATSHRINK_MIN_WINDOW_BITS \<or>
         window_sz2 > HEATSHRINK_MAX_WINDOW_BITS \<or>
         lookahead_sz2 < HEATSHRINK_MIN_LOOKAHEAD_BITS \<or>
         lookahead_sz2 > window_sz2
      then None
      else Some (heatshrink_encoder_reset
        \<lparr> hse_input_size = 0, hse_match_scan_index = 0, hse_match_length = 0,
          hse_match_pos = mp, hse_outgoing_bits = 0, hse_outgoing_bits_count = 0,
          hse_flags = 0, hse_state = HSES_NOT_FULL, hse_current_byte = 0,
          hse_bit_index = 0, hse_window_sz2 = window_sz2,
          hse_lookahead_sz2 = lookahead_sz2,
          hse_search_index = take (2 * 2 ^ unat window_sz2) idx
             @ replicate (2 * 2 ^ unat window_sz2 - length idx) 0,
          hse_buffer = replicate (2 * 2 ^ unat window_sz2) 0 \<rparr>))"

definition get_input_buffer_size :: "heatshrink_encoder \<Rightarrow> u16" where
  "get_input_buffer_size hse = push_bit (unat (hse_window_sz2 hse)) 1"

definition get_input_offset :: "heatshrink_encoder \<Rightarrow> u16" where
  "get_input_offset hse = get_input_buffer_size hse"

definition get_lookahead_size :: "heatshrink_encoder \<Rightarrow> u16" where
  "get_lookahead_size hse = push_bit (unat (hse_lookahead_sz2 hse)) 1"

definition is_finishing :: "heatshrink_encoder \<Rightarrow> bool" where
  "is_finishing hse = (hse_flags hse AND FLAG_IS_FINISHING \<noteq> 0)"

definition backlog_is_partial :: "heatshrink_encoder \<Rightarrow> bool" where
  "backlog_is_partial hse = (hse_flags hse AND FLAG_BACKLOG_IS_PARTIAL \<noteq> 0)"

definition backlog_is_filled :: "heatshrink_encoder \<Rightarrow> bool" where
  "backlog_is_filled hse = (hse_flags hse AND FLAG_BACKLOG_IS_FILLED \<noteq> 0)"

definition on_final_literal :: "heatshrink_encoder \<Rightarrow> bool" where
  "on_final_literal hse = (hse_flags hse AND FLAG_ON_FINAL_LITERAL \<noteq> 0)"

definition has_literal :: "heatshrink_encoder \<Rightarrow> bool" where
  "has_literal hse = (hse_flags hse AND FLAG_HAS_LITERAL \<noteq> 0)"

definition can_take_byte :: "output_info \<Rightarrow> bool" where
  "can_take_byte oi = (unat (output_size oi) < buf_size oi)"

text \<open>
  \<^verbatim>\<open>heatshrink_encoder_sink\<close>.  The second component is the value stored through
  \<^verbatim>\<open>input_size\<close>; \<open>None\<close> when the function returns before the store.  The copy is
  inside the buffer whenever \<open>input_size\<close> is at most the window size.
\<close>

definition heatshrink_encoder_sink ::
  "heatshrink_encoder \<Rightarrow> byte list \<Rightarrow>
     HEATSHRINK_ENCODER_SINK_RES \<times> u16 option \<times> heatshrink_encoder" where
  "heatshrink_encoder_sink hse in_buf =
     (if is_finishing hse then (HSER_SINK_ERROR_MISUSE, None, hse)
      else if hse_state hse \<noteq> HSES_NOT_FULL then (HSER_SINK_ERROR_MISUSE, None, hse)
      else
        let write_offset = get_input_offset hse + hse_input_size hse;
            ibs = get_input_buffer_size hse;
            rem = ibs - hse_input_size hse;
            cp_sz = (if unat rem < length in_buf then rem else of_nat (length in_buf));
            hse1 = hse\<lparr> hse_buffer :=
                             memcpy_at (hse_buffer hse) (unat write_offset) in_buf (unat cp_sz),
                           hse_input_size := hse_input_size hse + cp_sz \<rparr>;
            hse2 = (if cp_sz = rem then hse1\<lparr> hse_state := HSES_FILLED \<rparr> else hse1)
        in (HSER_SINK_OK, Some cp_sz, hse2))"

definition heatshrink_encoder_finish ::
  "heatshrink_encoder \<Rightarrow> HEATSHRINK_ENCODER_FINISH_RES \<times> heatshrink_encoder" where
  "heatshrink_encoder_finish hse =
     (let hse1 = hse\<lparr> hse_flags := hse_flags hse OR FLAG_IS_FINISHING \<rparr>;
          hse2 = (if hse_state hse1 = HSES_NOT_FULL then hse1\<lparr> hse_state := HSES_FILLED \<rparr>
                  else hse1)
      in (if hse_state hse2 = HSES_DONE then HSER_FINISH_DONE else HSER_FINISH_MORE, hse2))"

subsection \<open>Bit output\<close>

text \<open>
  \<^verbatim>\<open>push_bits\<close>: the loop \<^verbatim>\<open>for (i = count - 1; i >= 0; i--)\<close>, by recursion on
  \<open>i + 1\<close>.  A full byte goes to \<^verbatim>\<open>oi->buf[(*oi->output_size)++]\<close>; the callers test
  \<open>can_take_byte\<close> first and push at most \<open>8\<close> bits, so the store is in range.
\<close>

fun push_bits_loop ::
  "nat \<Rightarrow> byte \<Rightarrow> heatshrink_encoder \<Rightarrow> output_info \<Rightarrow> heatshrink_encoder \<times> output_info" where
  "push_bits_loop 0 bits hse oi = (hse, oi)"
| "push_bits_loop (Suc i) bits hse oi =
     (let bit = bits AND push_bit i 1;
          hse1 = (if bit \<noteq> 0
                  then hse\<lparr> hse_current_byte := hse_current_byte hse OR hse_bit_index hse \<rparr>
                  else hse);
          hse2 = hse1\<lparr> hse_bit_index := drop_bit 1 (hse_bit_index hse1) \<rparr>
      in if hse_bit_index hse2 = 0
         then push_bits_loop i bits
                (hse2\<lparr> hse_bit_index := 0x80, hse_current_byte := 0 \<rparr>)
                (oi\<lparr> buf := (buf oi)[unat (output_size oi) := hse_current_byte hse2],
                      output_size := output_size oi + 1 \<rparr>)
         else push_bits_loop i bits hse2 oi)"

definition push_bits ::
  "heatshrink_encoder \<Rightarrow> byte \<Rightarrow> byte \<Rightarrow> output_info \<Rightarrow> heatshrink_encoder \<times> output_info" where
  "push_bits hse count bits oi = push_bits_loop (unat count) bits hse oi"

definition add_tag_bit ::
  "heatshrink_encoder \<Rightarrow> output_info \<Rightarrow> byte \<Rightarrow> heatshrink_encoder \<times> output_info" where
  "add_tag_bit hse oi tag = push_bits hse 1 tag oi"

definition push_outgoing_bits ::
  "heatshrink_encoder \<Rightarrow> output_info \<Rightarrow> byte \<times> heatshrink_encoder \<times> output_info" where
  "push_outgoing_bits hse oi =
     (let count = (if hse_outgoing_bits_count hse > 8 then 8 else hse_outgoing_bits_count hse);
          bits = (if hse_outgoing_bits_count hse > 8
                  then (ucast (drop_bit (unat (hse_outgoing_bits_count hse) - 8)
                                 (hse_outgoing_bits hse)) :: byte)
                  else ucast (hse_outgoing_bits hse));
          (hse1, oi') = push_bits hse count bits oi
      in (count,
          hse1\<lparr> hse_outgoing_bits_count := hse_outgoing_bits_count hse1 - count \<rparr>, oi'))"

definition push_literal_byte ::
  "heatshrink_encoder \<Rightarrow> output_info \<Rightarrow> heatshrink_encoder \<times> output_info" where
  "push_literal_byte hse oi =
     (let processed_offset = hse_match_scan_index hse - 1;
          input_offset = get_input_offset hse + processed_offset;
          c = hse_buffer hse ! unat input_offset
      in push_bits hse 8 c oi)"

subsection \<open>Match search\<close>

text \<open>
  The inner loop of \<^verbatim>\<open>find_longest_match\<close>:
  \<^verbatim>\<open>for (len = 0; len < maxlen; len++) if (buf[pos + len] != buf[needle_index + len]) break;\<close>
  The sums \<^verbatim>\<open>pos + len\<close> are computed in \<^verbatim>\<open>int\<close> and do not wrap.
\<close>

function match_len_loop :: "byte list \<Rightarrow> u16 \<Rightarrow> u16 \<Rightarrow> u16 \<Rightarrow> u16 \<Rightarrow> u16" where
  "match_len_loop b pos needle_index maxlen len =
     (if len < maxlen
      then (if b ! (unat pos + unat len) \<noteq> b ! (unat needle_index + unat len) then len
            else match_len_loop b pos needle_index maxlen (len + 1))
      else len)"
  by pat_completeness auto
termination
proof (relation "measure (\<lambda>(b, pos, needle_index, maxlen, len). unat maxlen - unat len)")
  show "wf (measure (\<lambda>(b, pos, needle_index, maxlen, len). unat maxlen - unat len))" by simp
next
  fix b :: "byte list" and pos needle_index maxlen len :: u16
  assume "len < maxlen"
  then have "unat (len + 1) = unat len + 1" "unat len < unat maxlen"
    by unat_arith+
  then show "((b, pos, needle_index, maxlen, len + 1), b, pos, needle_index, maxlen, len)
       \<in> measure (\<lambda>(b, pos, needle_index, maxlen, len). unat maxlen - unat len)"
    by simp
qed

declare match_len_loop.simps [simp del]

text \<open>
  The outer loop without the index (\<^verbatim>\<open>#else\<close> branch):
  \<^verbatim>\<open>for (pos = end - 1; ; pos--)\<close>, left through either \<^verbatim>\<open>break\<close>.  The result is the
  pair \<open>(match_maxlen, match_index)\<close> at the loop's exit.
\<close>

function find_longest_match_scan ::
  "byte list \<Rightarrow> u16 \<Rightarrow> u16 \<Rightarrow> u16 \<Rightarrow> u16 \<Rightarrow> u16 \<Rightarrow> u16 \<Rightarrow> u16 \<times> u16" where
  "find_longest_match_scan b start needle_index maxlen pos match_maxlen match_index =
     (let len = match_len_loop b pos needle_index maxlen 0
      in if len > 2 \<and> len > match_maxlen
         then (if len = maxlen then (len, pos)
               else if pos = start then (len, pos)
               else find_longest_match_scan b start needle_index maxlen (pos - 1) len pos)
         else (if pos = start then (match_maxlen, match_index)
               else find_longest_match_scan b start needle_index maxlen (pos - 1)
                      match_maxlen match_index))"
  by pat_completeness auto
termination
proof -
  have dec: "unat (pos - 1 - start) < unat (pos - start)" if "pos \<noteq> start" for pos start :: u16
  proof -
    from that have nz: "pos - start \<noteq> 0" by simp
    have "pos - 1 - start = (pos - start) - 1" by simp
    then have "unat (pos - 1 - start) = unat ((pos - start) - 1)" by (rule arg_cong)
    also have "\<dots> = unat (pos - start) - 1" using nz by (rule unat_minus_one)
    finally have e: "unat (pos - 1 - start) = unat (pos - start) - 1" .
    from nz have "unat (pos - start) \<noteq> 0" by (simp add: unat_eq_zero)
    with e show ?thesis by linarith
  qed
  show ?thesis
    by (relation "measure (\<lambda>(b, start, needle_index, maxlen, pos, mm, mi). unat (pos - start))")
       (auto simp: dec)
qed

declare find_longest_match_scan.simps [simp del]

text \<open>
  The outer loop with the index (\<^verbatim>\<open>#if HEATSHRINK_USE_INDEX\<close>):
  \<^verbatim>\<open>while (pos != MATCH_NOT_FOUND)\<close>, following \<^verbatim>\<open>hsi->index[pos]\<close>.  Nothing in the
  loop bounds the walk for an arbitrary index, so the result is \<open>None\<close> when it does
  not end.
\<close>

partial_function (option) find_longest_match_chain ::
  "byte list \<Rightarrow> u16 list \<Rightarrow> u16 \<Rightarrow> u16 \<Rightarrow> u16 \<Rightarrow> u16 \<Rightarrow> u16 \<Rightarrow> u16 \<Rightarrow> (u16 \<times> u16) option" where
  "find_longest_match_chain b idx start needle_index maxlen pos match_maxlen match_index =
     (if pos \<noteq> MATCH_NOT_FOUND
      then
        (let len = match_len_loop b pos needle_index maxlen 0
         in if len > 2 \<and> len > match_maxlen
            then (if len = maxlen then Some (len, pos)
                  else if idx ! unat pos < start then Some (len, pos)
                  else find_longest_match_chain b idx start needle_index maxlen
                         (idx ! unat pos) len pos)
            else (if idx ! unat pos < start then Some (match_maxlen, match_index)
                  else find_longest_match_chain b idx start needle_index maxlen
                         (idx ! unat pos) match_maxlen match_index))
      else Some (match_maxlen, match_index))"

declare find_longest_match_chain.simps [code]

text \<open>
  \<^verbatim>\<open>find_longest_match\<close>.  \<open>use_index\<close> is the build option \<^verbatim>\<open>HEATSHRINK_USE_INDEX\<close>
  (set in \<^verbatim>\<open>heatshrink_config.h\<close>, not among the sources).  The result is the pair of
  the returned \<^verbatim>\<open>match_pos\<close> and the caller's \<^verbatim>\<open>match_length\<close> after the call (the
  caller initialises it to \<open>0\<close>, and it is only stored when a match is found).
\<close>

definition find_longest_match ::
  "bool \<Rightarrow> heatshrink_encoder \<Rightarrow> u16 \<Rightarrow> u16 \<Rightarrow> u16 \<Rightarrow> (u16 \<times> u16) option" where
  "find_longest_match use_index hse start end' maxlen =
     (if start = end' then Some (MATCH_NOT_FOUND, 0)
      else
        (case (if use_index
               then (if hse_search_index hse ! unat end' < start then Some (0, MATCH_NOT_FOUND)
                     else find_longest_match_chain (hse_buffer hse) (hse_search_index hse)
                            start end' maxlen (hse_search_index hse ! unat end')
                            0 MATCH_NOT_FOUND)
               else Some (find_longest_match_scan (hse_buffer hse) start end' maxlen
                            (end' - 1) 0 MATCH_NOT_FOUND)) of
           None \<Rightarrow> None
         | Some (match_maxlen, match_index) \<Rightarrow>
             if match_maxlen > 0 then Some (end' - match_index, match_maxlen)
             else Some (MATCH_NOT_FOUND, 0)))"

text \<open>
  \<^verbatim>\<open>do_indexing\<close>: with the index, each offset below \<open>end\<close> gets the previous offset
  holding the same byte.  \<open>last\<close> is the table \<^verbatim>\<open>uint16_t last[256]\<close>; the sizes
  \<^verbatim>\<open>input_sz\<close> and \<^verbatim>\<open>end\<close> are 16-bit.
\<close>

definition do_indexing_body ::
  "byte list \<Rightarrow> nat \<Rightarrow> (byte \<Rightarrow> u16) \<times> u16 list \<Rightarrow> (byte \<Rightarrow> u16) \<times> u16 list" where
  "do_indexing_body data i st =
     (let v = data ! i; lv = fst st v
      in ((fst st)(v := of_nat i), (snd st)[i := lv]))"

definition do_indexing :: "bool \<Rightarrow> heatshrink_encoder \<Rightarrow> heatshrink_encoder" where
  "do_indexing use_index hse =
     (if use_index
      then
        let buf_sz = get_input_buffer_size hse;
            input_sz = 2 * buf_sz;
            index0 = replicate (unat input_sz) (- 1) @ drop (unat input_sz) (hse_search_index hse);
            end' = get_input_offset hse + hse_input_size hse
        in hse\<lparr> hse_search_index :=
                   snd (fold (do_indexing_body (hse_buffer hse)) [0 ..< unat end']
                          (\<lambda>v. - 1, index0)) \<rparr>
      else hse)"

subsection \<open>State functions\<close>

text \<open>
  \<^verbatim>\<open>st_step_search\<close>.  The comparisons \<^verbatim>\<open>msi >= input_size - (fin ? 0 : lookahead_sz)\<close>
  and \<^verbatim>\<open>input_size - msi < lookahead_sz\<close> are evaluated in \<^verbatim>\<open>int\<close>.
\<close>

definition st_step_search ::
  "bool \<Rightarrow> heatshrink_encoder \<Rightarrow> (HEATSHRINK_ENCODER_STATE \<times> heatshrink_encoder) option" where
  "st_step_search use_index hse =
     (let window_length = get_input_buffer_size hse;
          lookahead_sz = get_lookahead_size hse;
          msi = hse_match_scan_index hse;
          fin = is_finishing hse
      in if uint msi \<ge> uint (hse_input_size hse) - (if fin then 0 else uint lookahead_sz)
         then Some (HSES_SAVE_BACKLOG, hse)
         else
           let input_offset = get_input_offset hse;
               end' = input_offset + msi;
               start = (if backlog_is_filled hse then end' - window_length + 1
                        else if backlog_is_partial hse
                        then (if end' - window_length + 1 < lookahead_sz then lookahead_sz
                              else end' - window_length + 1)
                        else input_offset);
               max_possible = (if uint (hse_input_size hse) - uint msi < uint lookahead_sz
                               then hse_input_size hse - msi else lookahead_sz)
           in (case find_longest_match use_index hse start end' max_possible of
                 None \<Rightarrow> None
               | Some (match_pos, match_length) \<Rightarrow>
                   if match_pos = MATCH_NOT_FOUND
                   then Some (HSES_YIELD_TAG_BIT,
                          hse\<lparr> hse_match_scan_index := hse_match_scan_index hse + 1,
                               hse_flags := hse_flags hse OR FLAG_HAS_LITERAL,
                               hse_match_length := 0 \<rparr>)
                   else Some (HSES_YIELD_TAG_BIT,
                          hse\<lparr> hse_match_pos := match_pos,
                               hse_match_length := match_length \<rparr>)))"

definition st_yield_tag_bit ::
  "heatshrink_encoder \<Rightarrow> output_info \<Rightarrow>
     HEATSHRINK_ENCODER_STATE \<times> heatshrink_encoder \<times> output_info" where
  "st_yield_tag_bit hse oi =
     (if can_take_byte oi
      then (if hse_match_length hse = 0
            then (let (hse1, oi') = add_tag_bit hse oi HEATSHRINK_LITERAL_MARKER
                  in (HSES_YIELD_LITERAL, hse1, oi'))
            else (let (hse1, oi') = add_tag_bit hse oi HEATSHRINK_BACKREF_MARKER
                  in (HSES_YIELD_BR_INDEX,
                      hse1\<lparr> hse_outgoing_bits := hse_match_pos hse1 - 1,
                            hse_outgoing_bits_count := hse_window_sz2 hse1 \<rparr>, oi')))
      else (HSES_YIELD_TAG_BIT, hse, oi))"

definition hse_st_yield_literal ::
  "heatshrink_encoder \<Rightarrow> output_info \<Rightarrow>
     HEATSHRINK_ENCODER_STATE \<times> heatshrink_encoder \<times> output_info" where
  "hse_st_yield_literal hse oi =
     (if can_take_byte oi
      then (let (hse1, oi') = push_literal_byte hse oi;
                hse2 = hse1\<lparr> hse_flags := hse_flags hse1 AND NOT FLAG_HAS_LITERAL \<rparr>
            in if on_final_literal hse2 then (HSES_FLUSH_BITS, hse2, oi')
               else (if hse_match_length hse2 > 0 then HSES_YIELD_TAG_BIT else HSES_SEARCH,
                     hse2, oi'))
      else (HSES_YIELD_LITERAL, hse, oi))"

definition st_yield_br_index ::
  "heatshrink_encoder \<Rightarrow> output_info \<Rightarrow>
     HEATSHRINK_ENCODER_STATE \<times> heatshrink_encoder \<times> output_info" where
  "st_yield_br_index hse oi =
     (if can_take_byte oi
      then (let (count, hse1, oi') = push_outgoing_bits hse oi
            in if count > 0 then (HSES_YIELD_BR_INDEX, hse1, oi')
               else (HSES_YIELD_BR_LENGTH,
                     hse1\<lparr> hse_outgoing_bits := hse_match_length hse1 - 1,
                           hse_outgoing_bits_count := hse_lookahead_sz2 hse1 \<rparr>, oi'))
      else (HSES_YIELD_BR_INDEX, hse, oi))"

definition st_yield_br_length ::
  "heatshrink_encoder \<Rightarrow> output_info \<Rightarrow>
     HEATSHRINK_ENCODER_STATE \<times> heatshrink_encoder \<times> output_info" where
  "st_yield_br_length hse oi =
     (if can_take_byte oi
      then (let (count, hse1, oi') = push_outgoing_bits hse oi
            in if count > 0 then (HSES_YIELD_BR_LENGTH, hse1, oi')
               else (HSES_SEARCH,
                     hse1\<lparr> hse_match_scan_index := hse_match_scan_index hse1 + hse_match_length hse1,
                           hse_match_length := 0 \<rparr>, oi'))
      else (HSES_YIELD_BR_LENGTH, hse, oi))"

text \<open>
  \<^verbatim>\<open>save_backlog\<close>: \<^verbatim>\<open>memmove\<close> of \<open>shift_sz\<close> bytes from offset
  \<^verbatim>\<open>input_buf_sz - rem\<close> to the buffer's start.  \<open>rem\<close> and \<open>shift_sz\<close> are 16-bit;
  the source offset is a \<^verbatim>\<open>size_t\<close>.
\<close>

definition save_backlog :: "heatshrink_encoder \<Rightarrow> heatshrink_encoder" where
  "save_backlog hse =
     (let input_buf_sz = get_input_buffer_size hse;
          msi = hse_match_scan_index hse;
          rem = input_buf_sz - msi;
          shift_sz = input_buf_sz + rem;
          src_off = nat ((uint input_buf_sz - uint rem) mod 2 ^ 64);
          hse1 = hse\<lparr> hse_buffer :=
                           take (unat shift_sz) (drop src_off (hse_buffer hse))
                           @ drop (unat shift_sz) (hse_buffer hse) \<rparr>;
          hse2 = (if backlog_is_partial hse1
                  then hse1\<lparr> hse_flags := hse_flags hse1 OR FLAG_BACKLOG_IS_FILLED \<rparr>
                  else hse1\<lparr> hse_flags := hse_flags hse1 OR FLAG_BACKLOG_IS_PARTIAL \<rparr>)
      in hse2\<lparr> hse_match_scan_index := 0,
                hse_input_size := hse_input_size hse2 - of_nat src_off \<rparr>)"

definition st_save_backlog ::
  "heatshrink_encoder \<Rightarrow> HEATSHRINK_ENCODER_STATE \<times> heatshrink_encoder" where
  "st_save_backlog hse =
     (if is_finishing hse
      then (if has_literal hse
            then (HSES_YIELD_TAG_BIT, hse\<lparr> hse_flags := hse_flags hse OR FLAG_ON_FINAL_LITERAL \<rparr>)
            else (HSES_FLUSH_BITS, hse))
      else (HSES_NOT_FULL, save_backlog hse))"

definition st_flush_bit_buffer ::
  "heatshrink_encoder \<Rightarrow> output_info \<Rightarrow> HEATSHRINK_ENCODER_STATE \<times> output_info" where
  "st_flush_bit_buffer hse oi =
     (if hse_bit_index hse = 0x80 then (HSES_DONE, oi)
      else if can_take_byte oi
      then (HSES_DONE, oi\<lparr> buf := (buf oi)[unat (output_size oi) := hse_current_byte hse],
                            output_size := output_size oi + 1 \<rparr>)
      else (HSES_FLUSH_BITS, oi))"

subsection \<open>\<^verbatim>\<open>heatshrink_encoder_poll\<close>\<close>

text \<open>
  One turn of the \<^verbatim>\<open>while (1)\<close> loop: the \<^verbatim>\<open>switch\<close> on \<open>in_state\<close> and the test
  after it.  The first component is \<open>Some r\<close> for \<^verbatim>\<open>return r\<close> and \<open>None\<close> to go
  round again.  The case \<^verbatim>\<open>HSES_FLUSH_BITS\<close> has no \<^verbatim>\<open>break\<close>: after storing the new
  state it runs into \<^verbatim>\<open>case HSES_DONE: return HSER_POLL_EMPTY\<close>.  The outer \<open>option\<close> is
  \<open>None\<close> when the indexed search does not return.
\<close>

definition encoder_poll_step ::
  "bool \<Rightarrow> heatshrink_encoder \<Rightarrow> output_info \<Rightarrow>
     (HEATSHRINK_ENCODER_POLL_RES option \<times> heatshrink_encoder \<times> output_info) option" where
  "encoder_poll_step use_index hse oi =
     (let in_state = hse_state hse;
          after = (\<lambda>(st, hse', oi').
                     if st = in_state \<and> unat (output_size oi') = buf_size oi'
                     then (Some HSER_POLL_MORE, hse'\<lparr> hse_state := st \<rparr>, oi')
                     else (None, hse'\<lparr> hse_state := st \<rparr>, oi'))
      in case in_state of
           HSES_NOT_FULL \<Rightarrow> Some (Some HSER_POLL_EMPTY, hse, oi)
         | HSES_FILLED \<Rightarrow> Some (after (HSES_SEARCH, do_indexing use_index hse, oi))
         | HSES_SEARCH \<Rightarrow>
             (case st_step_search use_index hse of
                None \<Rightarrow> None
              | Some (st, hse') \<Rightarrow> Some (after (st, hse', oi)))
         | HSES_YIELD_TAG_BIT \<Rightarrow> Some (after (st_yield_tag_bit hse oi))
         | HSES_YIELD_LITERAL \<Rightarrow> Some (after (hse_st_yield_literal hse oi))
         | HSES_YIELD_BR_INDEX \<Rightarrow> Some (after (st_yield_br_index hse oi))
         | HSES_YIELD_BR_LENGTH \<Rightarrow> Some (after (st_yield_br_length hse oi))
         | HSES_SAVE_BACKLOG \<Rightarrow>
             (let (st, hse') = st_save_backlog hse in Some (after (st, hse', oi)))
         | HSES_FLUSH_BITS \<Rightarrow>
             (let (st, oi') = st_flush_bit_buffer hse oi
              in Some (Some HSER_POLL_EMPTY, hse\<lparr> hse_state := st \<rparr>, oi'))
         | HSES_DONE \<Rightarrow> Some (Some HSER_POLL_EMPTY, hse, oi))"

partial_function (option) encoder_poll_loop ::
  "bool \<Rightarrow> heatshrink_encoder \<Rightarrow> output_info \<Rightarrow>
     (HEATSHRINK_ENCODER_POLL_RES \<times> heatshrink_encoder \<times> output_info) option" where
  "encoder_poll_loop use_index hse oi =
     (case encoder_poll_step use_index hse oi of
        None \<Rightarrow> None
      | Some (Some r, hse', oi') \<Rightarrow> Some (r, hse', oi')
      | Some (None, hse', oi') \<Rightarrow> encoder_poll_loop use_index hse' oi')"

declare encoder_poll_loop.simps [code]

text \<open>
  \<^verbatim>\<open>heatshrink_encoder_poll\<close>.  With a capacity of \<open>0\<close> it returns before the counter
  \<^verbatim>\<open>*output_size\<close> is cleared; the model then hands back the caller's buffer with the
  counter at \<open>0\<close>.
\<close>

definition heatshrink_encoder_poll ::
  "bool \<Rightarrow> heatshrink_encoder \<Rightarrow> byte list \<Rightarrow>
     (HEATSHRINK_ENCODER_POLL_RES \<times> heatshrink_encoder \<times> output_info) option" where
  "heatshrink_encoder_poll use_index hse out_buf =
     (if length out_buf = 0
      then Some (HSER_POLL_ERROR_MISUSE, hse,
                 \<lparr> buf = out_buf, buf_size = length out_buf, output_size = 0 \<rparr>)
      else encoder_poll_loop use_index hse
             \<lparr> buf = out_buf, buf_size = length out_buf, output_size = 0 \<rparr>)"

section \<open>Predicates of the specification\<close>

subsection \<open>Decoder\<close>

text \<open>
  What \<^verbatim>\<open>heatshrink_decoder_alloc\<close> establishes and no operation changes: the bounds
  on the configuration and the size of the flexible array.
\<close>

definition decoder_config_ok :: "heatshrink_decoder \<Rightarrow> bool" where
  "decoder_config_ok hsd =
     (HEATSHRINK_MIN_WINDOW_BITS \<le> hsd_window_sz2 hsd \<and>
      hsd_window_sz2 hsd \<le> HEATSHRINK_MAX_WINDOW_BITS \<and>
      HEATSHRINK_MIN_LOOKAHEAD_BITS \<le> hsd_lookahead_sz2 hsd \<and>
      hsd_lookahead_sz2 hsd \<le> hsd_window_sz2 hsd \<and>
      hsd_input_buffer_size hsd \<noteq> 0 \<and>
      length (hsd_buffers hsd) =
        2 ^ unat (hsd_window_sz2 hsd) + unat (hsd_input_buffer_size hsd))"

text \<open>
  The decoder's invariant on the input region (section 3 of the specification):
  \<open>input_index \<le> input_size \<le> IBS\<close>; the code keeps the index strictly below the size
  while bytes are held, and clears both together.
\<close>

definition decoder_inv :: "heatshrink_decoder \<Rightarrow> bool" where
  "decoder_inv hsd =
     (decoder_config_ok hsd \<and>
      hsd_input_size hsd \<le> hsd_input_buffer_size hsd \<and>
      (hsd_input_index hsd < hsd_input_size hsd \<or>
       (hsd_input_index hsd = 0 \<and> hsd_input_size hsd = 0)))"

text \<open>
  The decoder states a caller can reach: allocation, then any sequence of resets, sinks
  of arbitrary bytes and polls into buffers of any capacity, as long as no call faulted.
  (\<^verbatim>\<open>heatshrink_decoder_finish\<close> does not change the decoder.)
\<close>

inductive decoder_reach :: "heatshrink_decoder \<Rightarrow> bool" where
  reach_alloc:
    "heatshrink_decoder_alloc input_buffer_size window_sz2 lookahead_sz2 = Some hsd
     \<Longrightarrow> decoder_reach hsd"
| reach_reset:
    "decoder_reach hsd \<Longrightarrow> decoder_reach (heatshrink_decoder_reset hsd)"
| reach_sink:
    "decoder_reach hsd \<Longrightarrow> heatshrink_decoder_sink hsd in_buf = Inr (r, n, hsd')
     \<Longrightarrow> decoder_reach hsd'"
| reach_poll:
    "decoder_reach hsd \<Longrightarrow> heatshrink_decoder_poll hsd out_buf = Some (Inr (pr, hsd', oi'))
     \<Longrightarrow> decoder_reach hsd'"

text \<open>
  The fields \<^verbatim>\<open>get_bits\<close> may change are the input cursor, the current byte with its
  bit mask, and the accumulator.
\<close>

definition get_bits_frame :: "heatshrink_decoder \<Rightarrow> heatshrink_decoder \<Rightarrow> bool" where
  "get_bits_frame hsd hsd' =
     (hsd_state hsd' = hsd_state hsd \<and>
      hsd_buffers hsd' = hsd_buffers hsd \<and>
      hsd_window_sz2 hsd' = hsd_window_sz2 hsd \<and>
      hsd_lookahead_sz2 hsd' = hsd_lookahead_sz2 hsd \<and>
      hsd_input_buffer_size hsd' = hsd_input_buffer_size hsd \<and>
      hsd_head_index hsd' = hsd_head_index hsd \<and>
      hsd_output_count hsd' = hsd_output_count hsd \<and>
      hsd_output_index hsd' = hsd_output_index hsd)"

text \<open>
  The bits the decoder still holds, as a number that every consumed bit lowers: the
  bytes left in the input region, then the mask of the current byte.
\<close>

definition bits_measure :: "heatshrink_decoder \<Rightarrow> nat" where
  "bits_measure hsd =
     (unat (hsd_input_size hsd) - unat (hsd_input_index hsd)) * 256 + unat (hsd_bit_index hsd)"

definition decoder_state_rank :: "HEATSHRINK_DECODER_STATE \<Rightarrow> nat" where
  "decoder_state_rank st =
     (case st of
        HSDS_EMPTY \<Rightarrow> 0
      | HSDS_YIELD_LITERAL \<Rightarrow> 1
      | HSDS_INPUT_AVAILABLE \<Rightarrow> 2
      | HSDS_CHECK_FOR_MORE_INPUT \<Rightarrow> 3
      | HSDS_YIELD_BACKREF \<Rightarrow> 4
      | HSDS_BACKREF_COUNT \<Rightarrow> 5
      | HSDS_BACKREF_INDEX \<Rightarrow> 6)"

definition decoder_measure :: "heatshrink_decoder \<Rightarrow> nat" where
  "decoder_measure hsd = bits_measure hsd * 8 + decoder_state_rank (hsd_state hsd)"

text \<open>An output buffer as \<^verbatim>\<open>poll\<close> sets it up and keeps it.\<close>

definition oi_ok :: "output_info \<Rightarrow> bool" where
  "oi_ok oi = (buf_size oi = length (buf oi) \<and> unat (output_size oi) \<le> buf_size oi)"

subsection \<open>Encoder\<close>

definition encoder_config_ok :: "heatshrink_encoder \<Rightarrow> bool" where
  "encoder_config_ok hse =
     (HEATSHRINK_MIN_WINDOW_BITS \<le> hse_window_sz2 hse \<and>
      hse_window_sz2 hse \<le> HEATSHRINK_MAX_WINDOW_BITS \<and>
      HEATSHRINK_MIN_LOOKAHEAD_BITS \<le> hse_lookahead_sz2 hse \<and>
      hse_lookahead_sz2 hse \<le> hse_window_sz2 hse \<and>
      length (hse_buffer hse) = 2 * 2 ^ unat (hse_window_sz2 hse) \<and>
      length (hse_search_index hse) = 2 * 2 ^ unat (hse_window_sz2 hse))"

text \<open>
  The encoder invariants of section 3 of the specification: \<open>input_size \<le> 2 ^ W\<close>;
  \<open>match_scan_index \<le> input_size\<close>; in state \<^verbatim>\<open>FILLED\<close>, \<open>input_size = 2 ^ W\<close> or
  \<^verbatim>\<open>IS_FINISHING\<close>; \<open>bit_index\<close> is one of the eight single-bit masks.
\<close>

definition encoder_spec_inv :: "heatshrink_encoder \<Rightarrow> bool" where
  "encoder_spec_inv hse =
     (unat (hse_input_size hse) \<le> 2 ^ unat (hse_window_sz2 hse) \<and>
      hse_match_scan_index hse \<le> hse_input_size hse \<and>
      (hse_state hse = HSES_FILLED \<longrightarrow>
         unat (hse_input_size hse) = 2 ^ unat (hse_window_sz2 hse) \<or> is_finishing hse) \<and>
      hse_bit_index hse \<in> {0x80, 0x40, 0x20, 0x10, 0x08, 0x04, 0x02, 0x01})"

text \<open>
  The invariant the operations preserve: the configuration, the four properties above,
  and that a pending match does not reach past the input
  (\<open>match_scan_index + match_length \<le> input_size\<close>, without wrap-around).
\<close>

definition encoder_inv :: "heatshrink_encoder \<Rightarrow> bool" where
  "encoder_inv hse =
     (encoder_config_ok hse \<and>
      unat (hse_input_size hse) \<le> 2 ^ unat (hse_window_sz2 hse) \<and>
      unat (hse_match_scan_index hse) + unat (hse_match_length hse) \<le> unat (hse_input_size hse) \<and>
      (hse_state hse = HSES_FILLED \<longrightarrow>
         unat (hse_input_size hse) = 2 ^ unat (hse_window_sz2 hse) \<or> is_finishing hse) \<and>
      hse_bit_index hse \<in> {0x80, 0x40, 0x20, 0x10, 0x08, 0x04, 0x02, 0x01})"

text \<open>
  The encoder states a caller can reach with the build option \<open>use_index\<close>: allocation
  (with whatever \<^verbatim>\<open>malloc\<close> left in the unset fields), then any sequence of resets, sinks,
  polls that return, and finishes.
\<close>

inductive encoder_reach :: "bool \<Rightarrow> heatshrink_encoder \<Rightarrow> bool" for use_index where
  enc_reach_alloc:
    "heatshrink_encoder_alloc window_sz2 lookahead_sz2 mp idx = Some hse
     \<Longrightarrow> encoder_reach use_index hse"
| enc_reach_reset:
    "encoder_reach use_index hse \<Longrightarrow> encoder_reach use_index (heatshrink_encoder_reset hse)"
| enc_reach_sink:
    "encoder_reach use_index hse \<Longrightarrow> heatshrink_encoder_sink hse in_buf = (r, n, hse')
     \<Longrightarrow> encoder_reach use_index hse'"
| enc_reach_poll:
    "encoder_reach use_index hse
     \<Longrightarrow> heatshrink_encoder_poll use_index hse out_buf = Some (pr, hse', oi')
     \<Longrightarrow> encoder_reach use_index hse'"
| enc_reach_finish:
    "encoder_reach use_index hse \<Longrightarrow> heatshrink_encoder_finish hse = (fr, hse')
     \<Longrightarrow> encoder_reach use_index hse'"

text \<open>\<^verbatim>\<open>push_bits\<close> changes the partial output byte and its bit mask, nothing else.\<close>

definition push_bits_frame :: "heatshrink_encoder \<Rightarrow> heatshrink_encoder \<Rightarrow> bool" where
  "push_bits_frame hse hse' =
     (hse_input_size hse' = hse_input_size hse \<and>
      hse_match_scan_index hse' = hse_match_scan_index hse \<and>
      hse_match_length hse' = hse_match_length hse \<and>
      hse_match_pos hse' = hse_match_pos hse \<and>
      hse_outgoing_bits hse' = hse_outgoing_bits hse \<and>
      hse_outgoing_bits_count hse' = hse_outgoing_bits_count hse \<and>
      hse_flags hse' = hse_flags hse \<and>
      hse_state hse' = hse_state hse \<and>
      hse_window_sz2 hse' = hse_window_sz2 hse \<and>
      hse_lookahead_sz2 hse' = hse_lookahead_sz2 hse \<and>
      hse_search_index hse' = hse_search_index hse \<and>
      hse_buffer hse' = hse_buffer hse)"

subsection \<open>Matches\<close>

text \<open>
  The length of a match, as the specification has it: the number of leading bytes on
  which the \<open>maxlen\<close> bytes at \<open>pos\<close> and the \<open>maxlen\<close> bytes at the scan position
  \<open>needle\<close> agree.
\<close>

fun common_prefix_length :: "'a list \<Rightarrow> 'a list \<Rightarrow> nat" where
  "common_prefix_length (x # xs) (y # ys) =
     (if x = y then Suc (common_prefix_length xs ys) else 0)"
| "common_prefix_length _ _ = 0"

definition match_length_at :: "byte list \<Rightarrow> nat \<Rightarrow> nat \<Rightarrow> nat \<Rightarrow> nat" where
  "match_length_at b pos needle maxlen =
     common_prefix_length (take maxlen (drop pos b)) (take maxlen (drop needle b))"

text \<open>
  The search index as the comment of \<^verbatim>\<open>do_indexing\<close> describes it
  (\<^verbatim>\<open>hsi->index[offset] => previous offset w/ same byte\<close>, or \<^verbatim>\<open>MATCH_NOT_FOUND\<close>), for
  the offsets below \<open>hi\<close>.
\<close>

definition index_ok :: "byte list \<Rightarrow> u16 list \<Rightarrow> nat \<Rightarrow> bool" where
  "index_ok b idx hi =
     (\<forall>p < hi.
        (idx ! p = MATCH_NOT_FOUND \<and> (\<forall>r < p. b ! r \<noteq> b ! p)) \<or>
        (unat (idx ! p) < p \<and> b ! unat (idx ! p) = b ! p \<and>
         (\<forall>r. unat (idx ! p) < r \<and> r < p \<longrightarrow> b ! r \<noteq> b ! p)))"

subsection \<open>The encoder with a full window and nothing to search\<close>

text \<open>
  An encoder that waits for input with its input region full, the scan position at the
  region's start, and a lookahead as large as the window.
\<close>

definition encoder_stalled :: "heatshrink_encoder \<Rightarrow> bool" where
  "encoder_stalled hse =
     (hse_state hse = HSES_NOT_FULL \<and> \<not> is_finishing hse \<and>
      hse_lookahead_sz2 hse = hse_window_sz2 hse \<and>
      hse_input_size hse = get_input_buffer_size hse \<and>
      hse_match_scan_index hse = 0)"

subsection \<open>The compressed bit stream\<close>

text \<open>
  The encoder emits, and the decoder reads, a sequence of symbols packed most significant
  bit first.  A literal is the tag bit \<open>1\<close> (\<^verbatim>\<open>HEATSHRINK_LITERAL_MARKER\<close>) and the eight
  bits of the byte (\<^verbatim>\<open>st_yield_tag_bit\<close>, \<^verbatim>\<open>push_literal_byte\<close>; read back by
  \<^verbatim>\<open>st_input_available\<close> and \<^verbatim>\<open>st_yield_literal\<close>).  A back-reference is the tag bit
  \<open>0\<close>, then \<open>W\<close> bits holding the distance minus one and \<open>L\<close> bits holding the length
  minus one (\<^verbatim>\<open>st_yield_br_index\<close> pushes \<^verbatim>\<open>match_pos - 1\<close>, \<^verbatim>\<open>st_yield_br_length\<close> pushes
  \<^verbatim>\<open>match_length - 1\<close>; \<^verbatim>\<open>st_backref_index\<close> and \<^verbatim>\<open>st_backref_count\<close> add the one back).
\<close>

datatype symbol = Literal byte | Backref nat nat

definition bits_of_byte :: "byte \<Rightarrow> bool list" where
  "bits_of_byte b = map (bit b) (rev [0 ..< 8])"

definition field_bits :: "nat \<Rightarrow> nat \<Rightarrow> bool list" where
  "field_bits k v = map (bit v) (rev [0 ..< k])"

fun symbol_bits :: "nat \<Rightarrow> nat \<Rightarrow> symbol \<Rightarrow> bool list" where
  "symbol_bits W L (Literal c) = True # bits_of_byte c"
| "symbol_bits W L (Backref d l) = False # field_bits W (d - 1) @ field_bits L (l - 1)"

definition bytes_bits :: "byte list \<Rightarrow> bool list" where
  "bytes_bits bs = concat (map bits_of_byte bs)"

text \<open>
  The bits an encoder has emitted into \<open>oi\<close> so far: the bytes already pushed, then the
  bits of \<open>current_byte\<close> above the mask \<open>bit_index\<close> (the bits at and below the mask are
  still clear).
\<close>

definition encoder_emitted :: "heatshrink_encoder \<Rightarrow> output_info \<Rightarrow> bool list \<Rightarrow> bool" where
  "encoder_emitted hse oi bits =
     (\<exists>j < 8. hse_bit_index hse = 2 ^ j \<and>
        (\<forall>i \<le> j. \<not> bit (hse_current_byte hse) i) \<and>
        unat (output_size oi) \<le> length (buf oi) \<and>
        bits = bytes_bits (take (unat (output_size oi)) (buf oi))
               @ map (bit (hse_current_byte hse)) (rev [Suc j ..< 8]))"


text \<open>
  The bits a decoder has still to read: what is left of \<open>current_byte\<close> (the mask
  \<open>bit_index\<close> and the bits below it), then the bytes of the input region from
  \<open>input_index\<close> to \<open>input_size\<close>.  \<open>shift_in\<close> is the accumulator of \<^verbatim>\<open>get_bits\<close> after
  reading the given bits.
\<close>

definition decoder_cur :: "heatshrink_decoder \<Rightarrow> bool list \<Rightarrow> bool" where
  "decoder_cur hsd cur =
     ((hsd_bit_index hsd = 0 \<and> cur = []) \<or>
      (\<exists>j < 8. hsd_bit_index hsd = 2 ^ j \<and>
         cur = map (bit (hsd_current_byte hsd)) (rev [0 ..< Suc j])))"

definition decoder_bits :: "heatshrink_decoder \<Rightarrow> bool list \<Rightarrow> bool" where
  "decoder_bits hsd bits =
     (\<exists>cur. decoder_cur hsd cur \<and>
            ((hsd_input_size hsd = 0 \<and> bits = cur) \<or>
             (unat (hsd_input_index hsd) < unat (hsd_input_size hsd) \<and>
              unat (hsd_input_size hsd) \<le> unat (hsd_input_buffer_size hsd) \<and>
              unat (hsd_input_buffer_size hsd) \<le> length (hsd_buffers hsd) \<and>
              bits = cur @ bytes_bits
                       (take (unat (hsd_input_size hsd) - unat (hsd_input_index hsd))
                          (drop (unat (hsd_input_index hsd)) (hsd_buffers hsd))))))"


subsection \<open>A run of one byte\<close>


text \<open>
  An encoder whose input region holds \<open>n\<close> copies of the byte \<open>a\<close> (and, in the build
  with the search index, whose index is the one \<^verbatim>\<open>do_indexing\<close>'s comment describes up
  to the end of the input).
\<close>

definition run_data :: "bool \<Rightarrow> byte \<Rightarrow> nat \<Rightarrow> heatshrink_encoder \<Rightarrow> bool" where
  "run_data ui a n hse =
     (encoder_config_ok hse \<and> unat (hse_input_size hse) = n \<and>
      n \<le> 2 ^ unat (hse_window_sz2 hse) \<and>
      (\<forall>i < n. hse_buffer hse ! (2 ^ unat (hse_window_sz2 hse) + i) = a) \<and>
      (ui \<longrightarrow> index_ok (hse_buffer hse) (hse_search_index hse)
                (2 ^ unat (hse_window_sz2 hse) + n)))"

text \<open>
  The symbols the encoder emits for such a run, as the search of \<^verbatim>\<open>st_step_search\<close>
  and \<^verbatim>\<open>find_longest_match\<close> decides them: the first byte has nothing before it and is
  a literal; then, with \<open>r\<close> bytes left, a match shorter than three bytes is below
  \<^verbatim>\<open>break_even_point\<close> and the byte is a literal, and otherwise the byte just before the
  scan position matches on \<open>min r (2 ^ L)\<close> bytes, a back-reference of distance \<open>1\<close>.
\<close>

function run_tail :: "nat \<Rightarrow> byte \<Rightarrow> nat \<Rightarrow> symbol list" where
  "run_tail L a r =
     (if r = 0 then []
      else if r \<le> 2 then Literal a # run_tail L a (r - 1)
      else Backref 1 (min r (2 ^ L)) # run_tail L a (r - min r (2 ^ L)))"
  by pat_completeness auto
termination
  by (relation "measure (\<lambda>(L, a, r). r)") auto

declare run_tail.simps [simp del]

definition run_symbols :: "nat \<Rightarrow> byte \<Rightarrow> nat \<Rightarrow> symbol list" where
  "run_symbols L a n = Literal a # run_tail L a (n - 1)"

text \<open>
  A decoder between two symbols of such a run: the accumulator is clear, the byte
  written last (one behind \<open>head_index\<close> in the window) is \<open>a\<close>, and the output so far
  is \<open>cnt\<close> copies of \<open>a\<close>.
\<close>

definition decoder_ready :: "heatshrink_decoder \<Rightarrow> bool" where
  "decoder_ready hsd = (decoder_config_ok hsd \<and> hsd_bit_accumulator hsd = 0)"

definition decoder_last :: "byte \<Rightarrow> heatshrink_decoder \<Rightarrow> bool" where
  "decoder_last a hsd =
     (hsd_buffers hsd ! (unat (hsd_input_buffer_size hsd) +
        unat ((hsd_head_index hsd - 1) AND window_mask hsd)) = a)"


section \<open>Evaluation of the definitions\<close>

lemmas decoder_config_defs =
  HEATSHRINK_MIN_WINDOW_BITS_def HEATSHRINK_MAX_WINDOW_BITS_def HEATSHRINK_MIN_LOOKAHEAD_BITS_def

section \<open>Decoder: invariant, bounds and termination of the poll loop\<close>

lemma decoder_inv_alloc:
  "heatshrink_decoder_alloc ibs w l = Some hsd \<Longrightarrow> decoder_inv hsd"
  by (auto simp: heatshrink_decoder_alloc_def heatshrink_decoder_reset_def decoder_inv_def
      decoder_config_ok_def not_less split: if_splits)

lemma decoder_inv_reset:
  "decoder_inv hsd \<Longrightarrow> decoder_inv (heatshrink_decoder_reset hsd)"
  by (simp add: heatshrink_decoder_reset_def decoder_inv_def decoder_config_ok_def)

lemma get_bits_frame_refl [simp]: "get_bits_frame hsd hsd"
  by (simp add: get_bits_frame_def)

lemma get_bits_frame_trans:
  "get_bits_frame a b \<Longrightarrow> get_bits_frame b c \<Longrightarrow> get_bits_frame a c"
  by (simp add: get_bits_frame_def)

lemma get_bits_pull_ok:
  assumes "decoder_inv hsd" and "hsd_input_size hsd \<noteq> 0"
  shows "\<exists>hsd'. get_bits_pull hsd = Inr hsd' \<and> decoder_inv hsd' \<and> get_bits_frame hsd hsd'
           \<and> bits_measure hsd' < bits_measure hsd"
proof -
  from assms have lt: "hsd_input_index hsd < hsd_input_size hsd"
    and le: "hsd_input_size hsd \<le> hsd_input_buffer_size hsd"
    and len: "length (hsd_buffers hsd) = 2 ^ unat (hsd_window_sz2 hsd) + unat (hsd_input_buffer_size hsd)"
    by (auto simp: decoder_inv_def decoder_config_ok_def)
  from lt le have n: "unat (hsd_input_index hsd) < unat (hsd_input_size hsd)"
    "unat (hsd_input_size hsd) \<le> unat (hsd_input_buffer_size hsd)"
    by (simp_all add: word_less_nat_alt word_le_nat_alt)
  from lt have suc: "unat (hsd_input_index hsd + 1) = unat (hsd_input_index hsd) + 1"
    by unat_arith
  have bi: "unat (hsd_bit_index hsd) < 256"
    using unsigned_less [of "hsd_bit_index hsd", where ?'a = nat] by simp
  show ?thesis
  proof (cases "hsd_input_index hsd + 1 = hsd_input_size hsd")
    case True
    with assms n len bi show ?thesis
      by (simp add: get_bits_pull_def Let_def decoder_inv_def decoder_config_ok_def
          get_bits_frame_def bits_measure_def)
  next
    case False
    then have "unat (hsd_input_index hsd + 1) \<noteq> unat (hsd_input_size hsd)"
      by (simp add: word_unat_eq_iff)
    with suc n have "unat (hsd_input_index hsd + 1) < unat (hsd_input_size hsd)"
      by linarith
    then have lt': "hsd_input_index hsd + 1 < hsd_input_size hsd"
      by (simp add: word_less_nat_alt)
    have "(unat (hsd_input_size hsd) - unat (hsd_input_index hsd + 1)) * 256 + 128
        < (unat (hsd_input_size hsd) - unat (hsd_input_index hsd)) * 256 + unat (hsd_bit_index hsd)"
      using suc n by (simp add: algebra_simps) 
    with False assms n len lt' show ?thesis
      by (simp add: get_bits_pull_def Let_def decoder_inv_def decoder_config_ok_def
          get_bits_frame_def bits_measure_def)
  qed
qed

lemma get_bits_shift_ok:
  assumes "decoder_inv hsd"
  shows "decoder_inv (get_bits_shift hsd) \<and> get_bits_frame hsd (get_bits_shift hsd)
           \<and> bits_measure (get_bits_shift hsd) \<le> bits_measure hsd
           \<and> (hsd_bit_index hsd \<noteq> 0 \<longrightarrow> bits_measure (get_bits_shift hsd) < bits_measure hsd)"
proof -
  have "unat (drop_bit 1 (hsd_bit_index hsd)) = unat (hsd_bit_index hsd) div 2"
    by (simp add: drop_bit_eq_div unat_div)
  moreover have "hsd_bit_index hsd \<noteq> 0 \<Longrightarrow> unat (hsd_bit_index hsd) \<noteq> 0"
    by (simp add: unat_eq_zero)
  ultimately show ?thesis using assms
    by (auto simp: get_bits_shift_def Let_def decoder_inv_def decoder_config_ok_def
        get_bits_frame_def bits_measure_def)
qed


lemma get_bits_loop_ok:
  "decoder_inv hsd \<Longrightarrow>
     \<exists>flag hsd'. get_bits_loop n hsd = Inr (flag, hsd') \<and> decoder_inv hsd'
        \<and> get_bits_frame hsd hsd' \<and> bits_measure hsd' \<le> bits_measure hsd
        \<and> (flag \<and> 0 < n \<longrightarrow> bits_measure hsd' < bits_measure hsd)"
proof (induction n arbitrary: hsd)
  case 0
  then show ?case by auto
next
  case (Suc n)
  show ?case
  proof (cases "hsd_bit_index hsd = 0")
    case False
    let ?h = "get_bits_shift hsd"
    from get_bits_shift_ok [OF Suc.prems] False
    have s: "decoder_inv ?h" "get_bits_frame hsd ?h" "bits_measure ?h < bits_measure hsd"
      by simp_all
    from Suc.IH [OF s(1)] obtain flag hsd' where
      r: "get_bits_loop n ?h = Inr (flag, hsd')" "decoder_inv hsd'" "get_bits_frame ?h hsd'"
         "bits_measure hsd' \<le> bits_measure ?h"
      by blast
    from r s False show ?thesis
      by (auto intro: get_bits_frame_trans)
  next
    case True
    show ?thesis
    proof (cases "hsd_input_size hsd = 0")
      case z: True
      with True Suc.prems show ?thesis by auto
    next
      case nz: False
      from get_bits_pull_ok [OF Suc.prems nz] obtain h1 where
        p: "get_bits_pull hsd = Inr h1" "decoder_inv h1" "get_bits_frame hsd h1"
           "bits_measure h1 < bits_measure hsd"
        by blast
      let ?h = "get_bits_shift h1"
      from get_bits_shift_ok [OF p(2)]
      have s: "decoder_inv ?h" "get_bits_frame h1 ?h" "bits_measure ?h \<le> bits_measure h1"
        by simp_all
      from Suc.IH [OF s(1)] obtain flag hsd' where
        r: "get_bits_loop n ?h = Inr (flag, hsd')" "decoder_inv hsd'" "get_bits_frame ?h hsd'"
           "bits_measure hsd' \<le> bits_measure ?h"
        by blast
      from r s p True nz show ?thesis
        by (auto intro: get_bits_frame_trans)
    qed
  qed
qed

lemma get_bits_ok:
  assumes "decoder_inv hsd"
  shows "\<exists>bits hsd'. get_bits hsd k = Inr (bits, hsd') \<and> decoder_inv hsd'
        \<and> get_bits_frame hsd hsd' \<and> bits_measure hsd' \<le> bits_measure hsd
        \<and> (bits \<noteq> - 1 \<and> k \<noteq> 0 \<longrightarrow> bits_measure hsd' < bits_measure hsd)"
proof -
  from get_bits_loop_ok [OF assms, of "unat k"] obtain flag h where
    r: "get_bits_loop (unat k) hsd = Inr (flag, h)" "decoder_inv h" "get_bits_frame hsd h"
       "bits_measure h \<le> bits_measure hsd"
       "flag \<and> 0 < unat k \<longrightarrow> bits_measure h < bits_measure hsd"
    by blast
  have k: "k \<noteq> 0 \<Longrightarrow> 0 < unat k"
    by (simp add: unat_gt_0)
  have upd: "decoder_inv (h\<lparr>hsd_bit_accumulator := 0\<rparr>)"
    "get_bits_frame hsd (h\<lparr>hsd_bit_accumulator := 0\<rparr>)"
    "bits_measure (h\<lparr>hsd_bit_accumulator := 0\<rparr>) = bits_measure h"
    using r(2,3) by (simp_all add: decoder_inv_def decoder_config_ok_def get_bits_frame_def
        bits_measure_def)
  show ?thesis
    using assms r k upd by (cases flag) (auto simp: get_bits_def)
qed

lemma window_index_in_bounds:
  assumes "decoder_config_ok hsd"
  shows "unat (hsd_input_buffer_size hsd) + unat (x AND window_mask hsd)
           < length (hsd_buffers hsd)"
proof -
  from assms have w: "hsd_window_sz2 hsd \<le> 15"
    and len: "length (hsd_buffers hsd) =
        2 ^ unat (hsd_window_sz2 hsd) + unat (hsd_input_buffer_size hsd)"
    by (simp_all add: decoder_config_ok_def decoder_config_defs)
  have "window_mask hsd = mask (unat (hsd_window_sz2 hsd))"
    by (simp add: window_mask_def mask_eq_decr_exp push_bit_of_1)
  then have "uint (x AND window_mask hsd) < 2 ^ unat (hsd_window_sz2 hsd)"
    using and_mask_lt_2p [of x "unat (hsd_window_sz2 hsd)"] by simp
  then have "int (unat (x AND window_mask hsd)) < int (2 ^ unat (hsd_window_sz2 hsd))"
    by simp
  then have "unat (x AND window_mask hsd) < 2 ^ unat (hsd_window_sz2 hsd)"
    by (simp only: of_nat_less_iff)
  then show ?thesis using len by simp
qed


lemma window_read_ok:
  "decoder_config_ok hsd \<Longrightarrow> \<exists>c. window_read hsd (x AND window_mask hsd) = Inr c"
  by (simp add: window_read_def window_index_in_bounds)

lemma window_write_ok:
  "decoder_config_ok hsd \<Longrightarrow>
     window_write hsd (x AND window_mask hsd) c =
       Inr (hsd\<lparr> hsd_buffers := (hsd_buffers hsd)
              [unat (hsd_input_buffer_size hsd) + unat (x AND window_mask hsd) := c] \<rparr>)"
  by (simp add: window_write_def window_index_in_bounds)

lemma decoder_inv_window_update:
  "decoder_inv hsd \<Longrightarrow>
     decoder_inv (hsd\<lparr> hsd_buffers := (hsd_buffers hsd)[i := c], hsd_head_index := h \<rparr>)"
  by (simp add: decoder_inv_def decoder_config_ok_def)

lemma push_byte_ok:
  assumes "buf_size oi = length (buf oi)"
    and "unat (output_size oi) + Suc n \<le> buf_size oi \<or> 65536 \<le> buf_size oi"
  shows "\<exists>oi'. push_byte oi c = Inr oi' \<and> buf_size oi' = length (buf oi')
           \<and> buf_size oi' = buf_size oi
           \<and> (unat (output_size oi') + n \<le> buf_size oi' \<or> 65536 \<le> buf_size oi')"
proof -
  have lt: "unat (output_size oi) < 65536"
    using unsigned_less [of "output_size oi", where ?'a = nat] by simp
  with assms have room: "unat (output_size oi) < length (buf oi)"
    by auto
  have "unat (output_size oi + 1) \<le> unat (output_size oi) + 1"
    by (simp add: unat_word_ariths)
  moreover have "unat (output_size oi) + 1 = 65536 \<Longrightarrow> 65536 \<le> buf_size oi"
    using assms(2) by auto
  moreover have "unat (output_size oi) + 1 \<noteq> 65536 \<Longrightarrow>
      unat (output_size oi + 1) = unat (output_size oi) + 1"
    using lt by (simp add: unat_word_ariths)
  ultimately have "unat (output_size oi + 1) + n \<le> buf_size oi \<or> 65536 \<le> buf_size oi"
    using assms(2) by (cases "unat (output_size oi) + 1 = 65536") auto
  with room assms(1) show ?thesis
    by (simp add: push_byte_def)
qed

lemma yield_backref_loop_ok:
  "decoder_inv hsd \<Longrightarrow> buf_size oi = length (buf oi) \<Longrightarrow>
   unat (output_size oi) + n \<le> buf_size oi \<or> 65536 \<le> buf_size oi \<Longrightarrow>
     \<exists>hsd' oi'. yield_backref_loop n off hsd oi = Inr (hsd', oi') \<and> decoder_inv hsd'
        \<and> oi_ok oi' \<and> buf_size oi' = buf_size oi
        \<and> bits_measure hsd' = bits_measure hsd \<and> hsd_state hsd' = hsd_state hsd
        \<and> hsd_output_count hsd' = hsd_output_count hsd"
proof (induction n arbitrary: hsd oi)
  case 0
  have "unat (output_size oi) < 65536"
    using unsigned_less [of "output_size oi", where ?'a = nat] by simp
  with 0 show ?case
    by (auto simp: oi_ok_def)
next
  case (Suc n)
  from Suc.prems(1) have cfg: "decoder_config_ok hsd"
    by (simp add: decoder_inv_def)
  from window_read_ok [OF cfg] obtain c where
    rd: "window_read hsd ((hsd_head_index hsd - off) AND window_mask hsd) = Inr c"
    by blast
  from push_byte_ok [OF Suc.prems(2,3)] obtain oi1 where
    pb: "push_byte oi c = Inr oi1" "buf_size oi1 = length (buf oi1)"
        "buf_size oi1 = buf_size oi"
        "unat (output_size oi1) + n \<le> buf_size oi1 \<or> 65536 \<le> buf_size oi1"
    by blast
  let ?h = "hsd\<lparr> hsd_buffers := (hsd_buffers hsd)
              [unat (hsd_input_buffer_size hsd) + unat (hsd_head_index hsd AND window_mask hsd) := c],
              hsd_head_index := hsd_head_index hsd + 1 \<rparr>"
  have inv: "decoder_inv ?h"
    using Suc.prems(1) by (rule decoder_inv_window_update)
  from Suc.IH [OF inv pb(2) pb(4)] obtain hsd' oi' where
    r: "yield_backref_loop n off ?h oi1 = Inr (hsd', oi')" "decoder_inv hsd'" "oi_ok oi'"
       "buf_size oi' = buf_size oi1"
       "bits_measure hsd' = bits_measure ?h" "hsd_state hsd' = hsd_state ?h"
       "hsd_output_count hsd' = hsd_output_count ?h"
    by blast
  from r rd pb show ?case
    by (simp add: window_write_ok [OF cfg] bits_measure_def)
qed


lemma decoder_inv_state_update [simp]:
  "decoder_inv (hsd\<lparr> hsd_state := st \<rparr>) = decoder_inv hsd"
  by (simp add: decoder_inv_def decoder_config_ok_def)

lemma bits_measure_state_update [simp]:
  "bits_measure (hsd\<lparr> hsd_state := st \<rparr>) = bits_measure hsd"
  by (simp add: bits_measure_def)

lemma decoder_config_nonzero:
  assumes "decoder_inv hsd"
  shows "hsd_window_sz2 hsd \<noteq> 0" and "hsd_lookahead_sz2 hsd \<noteq> 0"
  using assms by (auto simp: decoder_inv_def decoder_config_ok_def decoder_config_defs)

lemma st_input_available_ok:
  assumes "decoder_inv hsd"
  shows "\<exists>st hsd'. st_input_available hsd = Inr (st, hsd') \<and> decoder_inv hsd'
           \<and> hsd_state hsd' = hsd_state hsd
           \<and> bits_measure hsd' * 8 + decoder_state_rank st
               < bits_measure hsd * 8 + decoder_state_rank HSDS_INPUT_AVAILABLE"
proof -
  from get_bits_ok [OF assms, of 1] obtain bits h where
    g: "get_bits hsd 1 = Inr (bits, h)" "decoder_inv h" "get_bits_frame hsd h"
       "bits_measure h \<le> bits_measure hsd"
       "bits \<noteq> - 1 \<longrightarrow> bits_measure h < bits_measure hsd"
    by auto
  show ?thesis
  proof (cases "bits = 0")
    case True
    with g(5) have "bits_measure h < bits_measure hsd" by simp
    with g True show ?thesis
      by (simp add: st_input_available_def get_bits_frame_def decoder_state_rank_def)
  next
    case False
    with g show ?thesis
      by (simp add: st_input_available_def get_bits_frame_def decoder_state_rank_def)
  qed
qed

lemma st_backref_index_ok:
  assumes "decoder_inv hsd"
  shows "\<exists>st hsd'. st_backref_index hsd = Inr (st, hsd') \<and> decoder_inv hsd'
           \<and> hsd_state hsd' = hsd_state hsd
           \<and> (st \<noteq> HSDS_BACKREF_INDEX \<longrightarrow>
                bits_measure hsd' * 8 + decoder_state_rank st
                  < bits_measure hsd * 8 + decoder_state_rank HSDS_BACKREF_INDEX)"
proof -
  from get_bits_ok [OF assms, of "hsd_window_sz2 hsd"] decoder_config_nonzero [OF assms]
  obtain bits h where
    g: "get_bits hsd (hsd_window_sz2 hsd) = Inr (bits, h)" "decoder_inv h" "get_bits_frame hsd h"
       "bits \<noteq> - 1 \<longrightarrow> bits_measure h < bits_measure hsd"
    by auto
  then show ?thesis
    by (auto simp: st_backref_index_def get_bits_frame_def decoder_state_rank_def
        decoder_inv_def decoder_config_ok_def bits_measure_def)
qed

lemma st_backref_count_ok:
  assumes "decoder_inv hsd"
  shows "\<exists>st hsd'. st_backref_count hsd = Inr (st, hsd') \<and> decoder_inv hsd'
           \<and> hsd_state hsd' = hsd_state hsd
           \<and> (st \<noteq> HSDS_BACKREF_COUNT \<longrightarrow>
                bits_measure hsd' * 8 + decoder_state_rank st
                  < bits_measure hsd * 8 + decoder_state_rank HSDS_BACKREF_COUNT)"
proof -
  from get_bits_ok [OF assms, of "hsd_lookahead_sz2 hsd"] decoder_config_nonzero [OF assms]
  obtain bits h where
    g: "get_bits hsd (hsd_lookahead_sz2 hsd) = Inr (bits, h)" "decoder_inv h" "get_bits_frame hsd h"
       "bits \<noteq> - 1 \<longrightarrow> bits_measure h < bits_measure hsd"
    by auto
  then show ?thesis
    by (auto simp: st_backref_count_def get_bits_frame_def decoder_state_rank_def
        decoder_inv_def decoder_config_ok_def bits_measure_def)
qed

lemma hsd_st_yield_literal_ok:
  assumes "decoder_inv hsd" and "oi_ok oi"
  shows "\<exists>st hsd' oi'. hsd_st_yield_literal hsd oi = Inr (st, hsd', oi') \<and> decoder_inv hsd'
           \<and> oi_ok oi' \<and> buf_size oi' = buf_size oi
           \<and> hsd_state hsd' = hsd_state hsd
           \<and> (st \<noteq> HSDS_YIELD_LITERAL \<longrightarrow>
                bits_measure hsd' * 8 + decoder_state_rank st
                  < bits_measure hsd * 8 + decoder_state_rank HSDS_YIELD_LITERAL)"
proof (cases "unat (output_size oi) < buf_size oi")
  case False
  with assms show ?thesis
    by (simp add: hsd_st_yield_literal_def)
next
  case True
  from get_bits_ok [OF assms(1), of 8] obtain byte h where
    g: "get_bits hsd 8 = Inr (byte, h)" "decoder_inv h" "get_bits_frame hsd h"
       "byte \<noteq> - 1 \<longrightarrow> bits_measure h < bits_measure hsd"
    by auto
  show ?thesis
  proof (cases "byte = - 1")
    case m: True
    with g True assms show ?thesis
      by (simp add: hsd_st_yield_literal_def get_bits_frame_def)
  next
    case nm: False
    from g(2) have cfg: "decoder_config_ok h"
      by (simp add: decoder_inv_def)
    from assms(2) True have "buf_size oi = length (buf oi)"
      "unat (output_size oi) + Suc 0 \<le> buf_size oi \<or> 65536 \<le> buf_size oi"
      by (auto simp: oi_ok_def)
    from push_byte_ok [OF this, of "ucast (byte AND 0xFF)"] obtain oi1 where
      pb: "push_byte oi (ucast (byte AND 0xFF)) = Inr oi1" "buf_size oi1 = length (buf oi1)"
          "buf_size oi1 = buf_size oi"
          "unat (output_size oi1) + 0 \<le> buf_size oi1 \<or> 65536 \<le> buf_size oi1"
      by blast
    have "unat (output_size oi1) < 65536"
      using unsigned_less [of "output_size oi1", where ?'a = nat] by simp
    with pb have ok: "oi_ok oi1"
      by (auto simp: oi_ok_def)
    from nm g(4) have "bits_measure h < bits_measure hsd" by simp
    with g nm True pb ok show ?thesis
      by (simp add: hsd_st_yield_literal_def window_write_ok [OF cfg] Let_def
          get_bits_frame_def decoder_state_rank_def decoder_inv_def decoder_config_ok_def
          bits_measure_def)
  qed
qed

lemma st_yield_backref_ok:
  assumes "decoder_inv hsd" and "oi_ok oi"
  shows "\<exists>st hsd' oi'. st_yield_backref hsd oi = Inr (st, hsd', oi') \<and> decoder_inv hsd'
           \<and> oi_ok oi' \<and> buf_size oi' = buf_size oi
           \<and> hsd_state hsd' = hsd_state hsd
           \<and> (st \<noteq> HSDS_YIELD_BACKREF \<longrightarrow>
                bits_measure hsd' * 8 + decoder_state_rank st
                  < bits_measure hsd * 8 + decoder_state_rank HSDS_YIELD_BACKREF)"
proof -
  define count where "count = nat ((int (buf_size oi) - uint (output_size oi)) mod 2 ^ 64)"
  define count' where "count' = (if unat (hsd_output_count hsd) < count
                                  then unat (hsd_output_count hsd) else count)"
  from assms(2) have le: "unat (output_size oi) \<le> buf_size oi" and
    len: "buf_size oi = length (buf oi)"
    by (simp_all add: oi_ok_def)
  have u: "uint (output_size oi) = int (unat (output_size oi))"
    by simp
  with le have "0 \<le> int (buf_size oi) - uint (output_size oi)"
    by linarith
  then have "(int (buf_size oi) - uint (output_size oi)) mod 2 ^ 64
      \<le> int (buf_size oi) - uint (output_size oi)"
    by (rule zmod_le_nonneg_dividend)
  then have "count \<le> nat (int (buf_size oi) - uint (output_size oi))"
    unfolding count_def by (rule nat_mono)
  also have "\<dots> = buf_size oi - unat (output_size oi)"
    unfolding u by linarith
  finally have "count \<le> buf_size oi - unat (output_size oi)" .
  then have room: "unat (output_size oi) + count' \<le> buf_size oi"
    using le by (auto simp: count'_def)
  have eq: "st_yield_backref hsd oi =
      (if 0 < count
       then (case yield_backref_loop count' (hsd_output_index hsd) hsd oi of
               Inl f \<Rightarrow> Inl f
             | Inr (hsd1, oi') \<Rightarrow>
                 if hsd_output_count hsd1 - of_nat count' = 0
                 then Inr (HSDS_CHECK_FOR_MORE_INPUT,
                        hsd1\<lparr> hsd_output_count := hsd_output_count hsd1 - of_nat count' \<rparr>, oi')
                 else Inr (HSDS_YIELD_BACKREF,
                        hsd1\<lparr> hsd_output_count := hsd_output_count hsd1 - of_nat count' \<rparr>, oi'))
       else Inr (HSDS_YIELD_BACKREF, hsd, oi))"
    unfolding count'_def count_def
    by (simp add: st_yield_backref_def Let_def split: sum.splits prod.splits)
  show ?thesis
  proof (cases "0 < count")
    case False
    with assms eq show ?thesis
      by simp
  next
    case True
    from room have "unat (output_size oi) + count' \<le> buf_size oi \<or> 65536 \<le> buf_size oi"
      by simp
    from yield_backref_loop_ok [OF assms(1) len this, of "hsd_output_index hsd"]
    obtain h1 oi1 where
      r: "yield_backref_loop count' (hsd_output_index hsd) hsd oi = Inr (h1, oi1)"
         "decoder_inv h1" "oi_ok oi1" "buf_size oi1 = buf_size oi"
         "bits_measure h1 = bits_measure hsd" "hsd_state h1 = hsd_state hsd"
      by blast
    have inv: "decoder_inv (h1\<lparr> hsd_output_count := c \<rparr>)" for c
      using r(2) by (simp add: decoder_inv_def decoder_config_ok_def)
    have bm: "bits_measure (h1\<lparr> hsd_output_count := c \<rparr>) = bits_measure hsd" for c
      using r(5) by (simp add: bits_measure_def)
    from True r inv bm show ?thesis
      by (simp add: eq decoder_state_rank_def)
  qed
qed

lemma decoder_poll_switch_ok:
  assumes "decoder_inv hsd" and "oi_ok oi"
  shows "\<exists>st hsd' oi'. decoder_poll_switch hsd oi = Inr (st, hsd', oi') \<and> decoder_inv hsd'
           \<and> oi_ok oi' \<and> buf_size oi' = buf_size oi
           \<and> (st \<noteq> hsd_state hsd \<longrightarrow>
                bits_measure hsd' * 8 + decoder_state_rank st < decoder_measure hsd)"
proof (cases "hsd_state hsd")
  case HSDS_EMPTY
  with assms show ?thesis by (simp add: decoder_poll_switch_def)
next
  case HSDS_INPUT_AVAILABLE
  with st_input_available_ok [OF assms(1)] assms(2) show ?thesis
    by (auto simp: decoder_poll_switch_def decoder_measure_def)
next
  case HSDS_YIELD_LITERAL
  with hsd_st_yield_literal_ok [OF assms] show ?thesis
    by (auto simp: decoder_poll_switch_def decoder_measure_def)
next
  case HSDS_BACKREF_INDEX
  with st_backref_index_ok [OF assms(1)] assms(2) show ?thesis
    by (auto simp: decoder_poll_switch_def decoder_measure_def)
next
  case HSDS_BACKREF_COUNT
  with st_backref_count_ok [OF assms(1)] assms(2) show ?thesis
    by (auto simp: decoder_poll_switch_def decoder_measure_def)
next
  case HSDS_YIELD_BACKREF
  with st_yield_backref_ok [OF assms] show ?thesis
    by (auto simp: decoder_poll_switch_def decoder_measure_def)
next
  case HSDS_CHECK_FOR_MORE_INPUT
  with assms show ?thesis
    by (simp add: decoder_poll_switch_def decoder_measure_def st_check_for_input_def
        decoder_state_rank_def)
qed

lemma decoder_poll_step_ok:
  assumes "decoder_inv hsd" and "oi_ok oi"
  shows "\<exists>x hsd' oi'. decoder_poll_step hsd oi = Inr (x, hsd', oi') \<and> decoder_inv hsd'
           \<and> oi_ok oi' \<and> buf_size oi' = buf_size oi
           \<and> (x = None \<longrightarrow> decoder_measure hsd' < decoder_measure hsd)
           \<and> (x = None \<or> x = Some HSDR_POLL_EMPTY \<or> x = Some HSDR_POLL_MORE)"
proof -
  from decoder_poll_switch_ok [OF assms] obtain st h oi1 where
    sw: "decoder_poll_switch hsd oi = Inr (st, h, oi1)" "decoder_inv h" "oi_ok oi1"
        "buf_size oi1 = buf_size oi"
        "st \<noteq> hsd_state hsd \<longrightarrow> bits_measure h * 8 + decoder_state_rank st < decoder_measure hsd"
    by blast
  have "decoder_measure (h\<lparr> hsd_state := st \<rparr>) = bits_measure h * 8 + decoder_state_rank st"
    by (simp add: decoder_measure_def)
  with sw assms show ?thesis
    by (simp add: decoder_poll_step_def)
qed

lemma decoder_poll_loop_ok:
  "decoder_inv hsd \<Longrightarrow> oi_ok oi \<Longrightarrow>
     \<exists>r hsd' oi'. decoder_poll_loop hsd oi = Some (Inr (r, hsd', oi')) \<and> decoder_inv hsd'
        \<and> oi_ok oi' \<and> buf_size oi' = buf_size oi
        \<and> (r = HSDR_POLL_EMPTY \<or> r = HSDR_POLL_MORE)"
proof (induction "decoder_measure hsd" arbitrary: hsd oi rule: less_induct)
  case less
  from decoder_poll_step_ok [OF less.prems] obtain x h oi1 where
    st: "decoder_poll_step hsd oi = Inr (x, h, oi1)" "decoder_inv h" "oi_ok oi1"
        "buf_size oi1 = buf_size oi"
        "x = None \<longrightarrow> decoder_measure h < decoder_measure hsd"
        "x = None \<or> x = Some HSDR_POLL_EMPTY \<or> x = Some HSDR_POLL_MORE"
    by blast
  show ?case
  proof (cases x)
    case None
    with st(5) have "decoder_measure h < decoder_measure hsd" by simp
    from less.hyps [OF this st(2,3)] st(1,4) None show ?thesis
      by (subst decoder_poll_loop.simps) auto
  next
    case (Some r)
    with st show ?thesis
      by (subst decoder_poll_loop.simps) auto
  qed
qed

lemma heatshrink_decoder_poll_ok:
  assumes "decoder_inv hsd"
  shows "\<exists>r hsd' oi'. heatshrink_decoder_poll hsd out_buf = Some (Inr (r, hsd', oi'))
           \<and> decoder_inv hsd' \<and> (r = HSDR_POLL_EMPTY \<or> r = HSDR_POLL_MORE)"
proof -
  have "oi_ok \<lparr> buf = out_buf, buf_size = length out_buf, output_size = 0 \<rparr>"
    by (simp add: oi_ok_def)
  from decoder_poll_loop_ok [OF assms this] show ?thesis
    by (auto simp: heatshrink_decoder_poll_def)
qed

lemma heatshrink_decoder_sink_ok:
  assumes "decoder_inv hsd"
  shows "\<exists>r n hsd'. heatshrink_decoder_sink hsd in_buf = Inr (r, n, hsd') \<and> decoder_inv hsd'"
proof -
  from assms have le: "hsd_input_size hsd \<le> hsd_input_buffer_size hsd"
    and len: "length (hsd_buffers hsd) =
        2 ^ unat (hsd_window_sz2 hsd) + unat (hsd_input_buffer_size hsd)"
    and ix: "hsd_input_index hsd < hsd_input_size hsd \<or>
        (hsd_input_index hsd = 0 \<and> hsd_input_size hsd = 0)"
    by (simp_all add: decoder_inv_def decoder_config_ok_def)
  define rem where
    "rem = nat ((uint (hsd_input_buffer_size hsd) - uint (hsd_input_size hsd)) mod 2 ^ 64)"
  define size where "size = (if rem < length in_buf then rem else length in_buf)"
  from le have ule: "unat (hsd_input_size hsd) \<le> unat (hsd_input_buffer_size hsd)"
    by (simp add: word_le_nat_alt)
  have b: "unat (hsd_input_buffer_size hsd) < 65536"
    using unsigned_less [of "hsd_input_buffer_size hsd", where ?'a = nat] by simp
  have u: "uint (hsd_input_buffer_size hsd) = int (unat (hsd_input_buffer_size hsd))"
    "uint (hsd_input_size hsd) = int (unat (hsd_input_size hsd))"
    by simp_all
  have "0 \<le> int (unat (hsd_input_buffer_size hsd)) - int (unat (hsd_input_size hsd))"
    using ule by linarith
  moreover have "int (unat (hsd_input_buffer_size hsd)) - int (unat (hsd_input_size hsd))
      < 18446744073709551616"
    using b by linarith
  then have "int (unat (hsd_input_buffer_size hsd)) - int (unat (hsd_input_size hsd)) < 2 ^ 64"
    by (simp del: of_nat_unat)
  ultimately have
    "(int (unat (hsd_input_buffer_size hsd)) - int (unat (hsd_input_size hsd))) mod 2 ^ 64
      = int (unat (hsd_input_buffer_size hsd)) - int (unat (hsd_input_size hsd))"
    by (rule mod_pos_pos_trivial)
  then have "rem = nat (int (unat (hsd_input_buffer_size hsd)) - int (unat (hsd_input_size hsd)))"
    unfolding rem_def u by (rule arg_cong)
  then have rem: "rem = unat (hsd_input_buffer_size hsd) - unat (hsd_input_size hsd)"
    by (simp only: nat_minus_as_int [symmetric])
  have sz: "size \<le> rem" "size \<le> length in_buf"
    by (simp_all add: size_def)
  have eq: "heatshrink_decoder_sink hsd in_buf =
      (if rem = 0 then Inr (HSDR_SINK_FULL, 0, hsd)
       else if unat (hsd_input_size hsd) + size \<le> unat (hsd_input_buffer_size hsd) \<and>
               unat (hsd_input_size hsd) + size \<le> length (hsd_buffers hsd)
       then Inr (HSDR_SINK_OK, of_nat size,
              if hsd_state hsd = HSDS_EMPTY
              then hsd\<lparr> hsd_buffers :=
                           memcpy_at (hsd_buffers hsd) (unat (hsd_input_size hsd)) in_buf size,
                         hsd_input_size := hsd_input_size hsd + of_nat size,
                         hsd_state := HSDS_INPUT_AVAILABLE, hsd_input_index := 0 \<rparr>
              else hsd\<lparr> hsd_buffers :=
                           memcpy_at (hsd_buffers hsd) (unat (hsd_input_size hsd)) in_buf size,
                         hsd_input_size := hsd_input_size hsd + of_nat size \<rparr>)
       else Inl Input_region_overrun)"
    unfolding size_def rem_def
    by (auto simp: heatshrink_decoder_sink_def Let_def)
  show ?thesis
  proof (cases "rem = 0")
    case True
    with assms show ?thesis
      by (simp add: eq)
  next
    case False
    from sz rem ule have fit: "unat (hsd_input_size hsd) + size \<le> unat (hsd_input_buffer_size hsd)"
      by simp
    with len have fit': "unat (hsd_input_size hsd) + size \<le> length (hsd_buffers hsd)"
      by simp
    from fit b have un: "unat (hsd_input_size hsd + of_nat size) = unat (hsd_input_size hsd) + size"
      by (simp add: unat_word_ariths unat_of_nat)
    have mlen: "length (memcpy_at (hsd_buffers hsd) (unat (hsd_input_size hsd)) in_buf size)
        = length (hsd_buffers hsd)"
      using fit' sz(2) by (simp add: memcpy_at_def)
    from un fit have le': "hsd_input_size hsd + of_nat size \<le> hsd_input_buffer_size hsd"
      by (simp add: word_le_nat_alt)
    from ix un have ix': "hsd_input_index hsd < hsd_input_size hsd + of_nat size \<or>
        (hsd_input_index hsd = 0 \<and> hsd_input_size hsd + of_nat size = 0)"
      by (auto simp: word_less_nat_alt)
    have z: "0 < hsd_input_size hsd + of_nat size \<or> hsd_input_size hsd + of_nat size = 0"
      using word_neq_0_conv [of "hsd_input_size hsd + of_nat size"] by blast
    from False fit fit' assms mlen le' ix' z show ?thesis
      by (simp add: eq decoder_inv_def decoder_config_ok_def)
  qed
qed

lemma decoder_reach_inv: "decoder_reach hsd \<Longrightarrow> decoder_inv hsd"
proof (induction rule: decoder_reach.induct)
  case (reach_alloc input_buffer_size window_sz2 lookahead_sz2 hsd)
  then show ?case by (rule decoder_inv_alloc)
next
  case (reach_reset hsd)
  then show ?case by (simp add: decoder_inv_reset)
next
  case (reach_sink hsd in_buf r n hsd')
  with heatshrink_decoder_sink_ok [of hsd in_buf] show ?case by auto
next
  case (reach_poll hsd out_buf pr hsd' oi')
  with heatshrink_decoder_poll_ok [of hsd out_buf] show ?case by auto
qed

section \<open>C2: the decoder's buffer accesses stay in bounds\<close>

text \<open>
  C2.  For every decoder a caller can reach (allocation, then resets, sinks of any bytes
  whatsoever and polls into buffers of any capacity), the next sink and the next poll
  return without a fault: every read of the input region is below
  \<open>input_buffer_size\<close>, every access to the history window is at an offset masked to
  \<open>2 ^ W\<close>, every store to the caller's output buffer is below its capacity; and the poll
  loop returns.  (\<^verbatim>\<open>heatshrink_decoder_finish\<close> reads two fields and touches no buffer.)
  The bytes sunk are arbitrary, so this covers streams no encoder produces.
\<close>

theorem decoder_accesses_in_bounds:
  assumes "decoder_reach hsd"
  shows "(\<exists>r n hsd'. heatshrink_decoder_sink hsd in_buf = Inr (r, n, hsd')) \<and>
         (\<exists>r hsd' oi'. heatshrink_decoder_poll hsd out_buf = Some (Inr (r, hsd', oi')))"
proof -
  from assms have inv: "decoder_inv hsd"
    by (rule decoder_reach_inv)
  from heatshrink_decoder_sink_ok [OF inv, of in_buf] heatshrink_decoder_poll_ok [OF inv, of out_buf]
  show ?thesis by blast
qed

theorem decoder_accesses_in_bounds_witness:
  "(\<exists>r n hsd'. heatshrink_decoder_sink
       (the (heatshrink_decoder_alloc 4 8 4)) [0x00, 0xFF, 0xFF, 0xFF, 0xFF, 0xFF]
       = Inr (r, n, hsd')) \<and>
   (\<exists>r hsd' oi'. heatshrink_decoder_poll
       (the (heatshrink_decoder_alloc 4 8 4)) [0, 0, 0] = Some (Inr (r, hsd', oi')))"
proof -
  have "heatshrink_decoder_alloc 4 8 4 = Some (the (heatshrink_decoder_alloc 4 8 4))"
    by (simp add: heatshrink_decoder_alloc_def decoder_config_defs)
  then have "decoder_reach (the (heatshrink_decoder_alloc 4 8 4))"
    by (rule reach_alloc)
  then show ?thesis
    by (rule decoder_accesses_in_bounds)
qed

section \<open>C5: sequencing misuse\<close>

lemma is_finishing_after_finish:
  "is_finishing (snd (heatshrink_encoder_finish hse))"
proof -
  have "(x OR 1) AND 1 = (1::byte)" for x :: byte
    by (simp add: bit_eq_iff bit_simps) 
  then show ?thesis
    by (simp add: heatshrink_encoder_finish_def is_finishing_def FLAG_IS_FINISHING_def Let_def)
qed

text \<open>
  C5 as the code has it.  \<^verbatim>\<open>heatshrink_encoder_sink\<close> after
  \<^verbatim>\<open>heatshrink_encoder_finish\<close>, \<^verbatim>\<open>heatshrink_encoder_sink\<close> in a state other than
  \<^verbatim>\<open>HSES_NOT_FULL\<close>, and \<^verbatim>\<open>heatshrink_encoder_poll\<close> with a buffer of capacity \<open>0\<close>
  return the misuse code and leave the encoder as it was (the sink stores nothing through
  its count pointer).  \<^verbatim>\<open>heatshrink_decoder_poll\<close> has no misuse code and no test of
  the capacity: with capacity \<open>0\<close> it runs its state machine and returns
  \<^verbatim>\<open>HSDR_POLL_EMPTY\<close> or \<^verbatim>\<open>HSDR_POLL_MORE\<close>.
\<close>

theorem sequencing_misuse:
  assumes "decoder_reach hsd"
  shows "heatshrink_encoder_sink (snd (heatshrink_encoder_finish hse)) in_buf
           = (HSER_SINK_ERROR_MISUSE, None, snd (heatshrink_encoder_finish hse))
       \<and> (hse_state hse \<noteq> HSES_NOT_FULL \<longrightarrow>
            heatshrink_encoder_sink hse in_buf = (HSER_SINK_ERROR_MISUSE, None, hse))
       \<and> (\<exists>oi. heatshrink_encoder_poll use_index hse [] = Some (HSER_POLL_ERROR_MISUSE, hse, oi))
       \<and> (\<exists>r hsd' oi'. heatshrink_decoder_poll hsd [] = Some (Inr (r, hsd', oi'))
             \<and> (r = HSDR_POLL_EMPTY \<or> r = HSDR_POLL_MORE))"
proof -
  from assms have "decoder_inv hsd"
    by (rule decoder_reach_inv)
  from heatshrink_decoder_poll_ok [OF this, of "[]"]
  have d: "\<exists>r hsd' oi'. heatshrink_decoder_poll hsd [] = Some (Inr (r, hsd', oi'))
             \<and> (r = HSDR_POLL_EMPTY \<or> r = HSDR_POLL_MORE)"
    by blast
  have a: "heatshrink_encoder_sink (snd (heatshrink_encoder_finish hse)) in_buf
           = (HSER_SINK_ERROR_MISUSE, None, snd (heatshrink_encoder_finish hse))"
    using is_finishing_after_finish [of hse] by (simp add: heatshrink_encoder_sink_def)
  have b: "hse_state hse \<noteq> HSES_NOT_FULL \<longrightarrow>
            heatshrink_encoder_sink hse in_buf = (HSER_SINK_ERROR_MISUSE, None, hse)"
    by (simp add: heatshrink_encoder_sink_def)
  have c: "\<exists>oi. heatshrink_encoder_poll use_index hse [] = Some (HSER_POLL_ERROR_MISUSE, hse, oi)"
    by (simp add: heatshrink_encoder_poll_def)
  from a b c d show ?thesis by blast
qed

theorem sequencing_misuse_witness:
  "heatshrink_encoder_sink
     (snd (heatshrink_encoder_finish
        (snd (heatshrink_encoder_finish (the (heatshrink_encoder_alloc 4 3 0 [])))))) [0x61]
     = (HSER_SINK_ERROR_MISUSE, None,
        snd (heatshrink_encoder_finish
          (snd (heatshrink_encoder_finish (the (heatshrink_encoder_alloc 4 3 0 []))))))
   \<and> hse_state (snd (heatshrink_encoder_finish (the (heatshrink_encoder_alloc 4 3 0 []))))
       \<noteq> HSES_NOT_FULL
   \<and> heatshrink_encoder_sink
       (snd (heatshrink_encoder_finish (the (heatshrink_encoder_alloc 4 3 0 [])))) [0x61]
     = (HSER_SINK_ERROR_MISUSE, None,
        snd (heatshrink_encoder_finish (the (heatshrink_encoder_alloc 4 3 0 []))))
   \<and> (\<exists>oi. heatshrink_encoder_poll False
          (snd (heatshrink_encoder_finish (the (heatshrink_encoder_alloc 4 3 0 [])))) []
        = Some (HSER_POLL_ERROR_MISUSE,
            snd (heatshrink_encoder_finish (the (heatshrink_encoder_alloc 4 3 0 []))), oi))
   \<and> (\<exists>r hsd' oi'. heatshrink_decoder_poll (the (heatshrink_decoder_alloc 256 7 3)) []
          = Some (Inr (r, hsd', oi')) \<and> (r = HSDR_POLL_EMPTY \<or> r = HSDR_POLL_MORE))"
proof -
  have "heatshrink_decoder_alloc 256 7 3 = Some (the (heatshrink_decoder_alloc 256 7 3))"
    by (simp add: heatshrink_decoder_alloc_def decoder_config_defs)
  then have r: "decoder_reach (the (heatshrink_decoder_alloc 256 7 3))"
    by (rule reach_alloc)
  have st: "hse_state (snd (heatshrink_encoder_finish (the (heatshrink_encoder_alloc 4 3 0 []))))
      \<noteq> HSES_NOT_FULL"
    by (simp add: heatshrink_encoder_alloc_def heatshrink_encoder_reset_def decoder_config_defs
        heatshrink_encoder_finish_def Let_def)
  from sequencing_misuse [OF r,
      of "snd (heatshrink_encoder_finish (the (heatshrink_encoder_alloc 4 3 0 [])))" "[0x61]" False]
    st
  show ?thesis by blast
qed

text \<open>
  The claim as stated fails for the decoder: after a sink of the byte \<open>0xB3\<close>, a poll
  with capacity \<open>0\<close> returns \<^verbatim>\<open>HSDR_POLL_MORE\<close>, and the decoder has changed (the
  tag bit is consumed and the state is \<^verbatim>\<open>HSDS_YIELD_LITERAL\<close>).
\<close>

theorem decoder_poll_zero_capacity_counterexample:
  "(case heatshrink_decoder_alloc 256 7 3 of
      Some d \<Rightarrow>
        (case heatshrink_decoder_sink d [0xB3] of
           Inr (r, n, d1) \<Rightarrow>
             (case heatshrink_decoder_poll d1 [] of
                Some (Inr (pr, d2, oi)) \<Rightarrow>
                  (pr, d2 = d1, hsd_state d1, hsd_state d2, hsd_input_size d1,
                   hsd_input_size d2, hsd_bit_index d1, hsd_bit_index d2))))
   = (HSDR_POLL_MORE, False, HSDS_INPUT_AVAILABLE, HSDS_YIELD_LITERAL, 1, 0, 0, 0x40)"
  by code_simp

section \<open>Encoder: the invariant and the operations\<close>

lemma unat_push_bit_one_u16:
  assumes "n < 16"
  shows "unat (push_bit n 1 :: u16) = 2 ^ n"
proof -
  have "(push_bit n 1 :: u16) = of_nat (2 ^ n)"
    by (simp add: push_bit_of_1)
  then have "unat (push_bit n 1 :: u16) = 2 ^ n mod 2 ^ LENGTH(16)"
    by (simp only: unat_of_nat)
  moreover from assms have "(2::nat) ^ n < 2 ^ 16"
    by (rule power_strict_increasing) simp
  ultimately show ?thesis
    by simp
qed

lemma unat_config_u8_le:
  "(w :: byte) \<le> 15 \<Longrightarrow> unat w < 16"
  by (simp add: word_le_nat_alt)

lemma encoder_window_bits:
  assumes "encoder_config_ok hse"
  shows "unat (hse_window_sz2 hse) < 16" and "unat (hse_lookahead_sz2 hse) < 16"
    and "unat (hse_lookahead_sz2 hse) \<le> unat (hse_window_sz2 hse)"
    and "3 \<le> unat (hse_lookahead_sz2 hse)"
  using assms
  by (simp_all add: encoder_config_ok_def decoder_config_defs word_le_nat_alt)

lemma unat_get_input_buffer_size:
  "encoder_config_ok hse \<Longrightarrow> unat (get_input_buffer_size hse) = 2 ^ unat (hse_window_sz2 hse)"
  unfolding get_input_buffer_size_def
  by (rule unat_push_bit_one_u16) (rule encoder_window_bits)


lemma window_size_bound:
  assumes "encoder_config_ok hse"
  shows "(2::nat) ^ unat (hse_window_sz2 hse) \<le> 32768"
proof -
  from encoder_window_bits(1) [OF assms] have "unat (hse_window_sz2 hse) \<le> 15" by simp
  then have "(2::nat) ^ unat (hse_window_sz2 hse) \<le> 2 ^ 15"
    by (rule power_increasing) simp
  then show ?thesis by simp
qed

lemma encoder_inv_alloc:
  "heatshrink_encoder_alloc w l mp idx = Some hse \<Longrightarrow> encoder_inv hse"
  by (auto simp: heatshrink_encoder_alloc_def heatshrink_encoder_reset_def encoder_inv_def
      encoder_config_ok_def not_less split: if_splits)

lemma encoder_inv_reset:
  "encoder_inv hse \<Longrightarrow> encoder_inv (heatshrink_encoder_reset hse)"
  by (simp add: heatshrink_encoder_reset_def encoder_inv_def encoder_config_ok_def)

lemma is_finishing_after_finish2:
  "is_finishing (hse\<lparr> hse_flags := hse_flags hse OR FLAG_IS_FINISHING \<rparr>)"
proof -
  have "(x OR 1) AND 1 = (1::byte)" for x :: byte
    by (simp add: bit_eq_iff bit_simps) 
  then show ?thesis
    by (simp add: is_finishing_def FLAG_IS_FINISHING_def)
qed

lemma encoder_inv_finish:
  assumes "encoder_inv hse"
  shows "encoder_inv (snd (heatshrink_encoder_finish hse))"
  using assms is_finishing_after_finish2 [of hse]
  by (auto simp: heatshrink_encoder_finish_def Let_def encoder_inv_def encoder_config_ok_def
      is_finishing_def)


lemma bit_index_shift:
  "b \<in> {0x80, 0x40, 0x20, 0x10, 0x08, 0x04, 0x02, 0x01 :: byte} \<Longrightarrow>
     drop_bit 1 b = 0 \<or> drop_bit 1 b \<in> {0x80, 0x40, 0x20, 0x10, 0x08, 0x04, 0x02, 0x01}"
  by auto

lemma push_bits_loop_ok:
  "push_bits_loop n bits hse oi = (hse', oi') \<Longrightarrow>
   hse_bit_index hse \<in> {0x80, 0x40, 0x20, 0x10, 0x08, 0x04, 0x02, 0x01} \<Longrightarrow>
     push_bits_frame hse hse' \<and>
     hse_bit_index hse' \<in> {0x80, 0x40, 0x20, 0x10, 0x08, 0x04, 0x02, 0x01}"
proof (induction n arbitrary: hse oi)
  case 0
  then show ?case by (simp add: push_bits_frame_def)
next
  case (Suc n)
  let ?h1 = "if bits AND push_bit n 1 \<noteq> 0
             then hse\<lparr> hse_current_byte := hse_current_byte hse OR hse_bit_index hse \<rparr>
             else hse"
  let ?h2 = "?h1\<lparr> hse_bit_index := drop_bit 1 (hse_bit_index ?h1) \<rparr>"
  have b1: "hse_bit_index ?h1 = hse_bit_index hse" by simp
  from bit_index_shift [OF Suc.prems(2)]
  have sh: "drop_bit 1 (hse_bit_index hse) = 0 \<or>
      drop_bit 1 (hse_bit_index hse) \<in> {0x80, 0x40, 0x20, 0x10, 0x08, 0x04, 0x02, 0x01}" .
  have f2: "push_bits_frame hse ?h2"
    by (simp add: push_bits_frame_def)
  show ?case
  proof (cases "hse_bit_index ?h2 = 0")
    case True
    let ?h3 = "?h2\<lparr> hse_bit_index := 0x80, hse_current_byte := 0 \<rparr>"
    let ?oi = "oi\<lparr> buf := (buf oi)[unat (output_size oi) := hse_current_byte ?h2],
                    output_size := output_size oi + 1 \<rparr>"
    from True Suc.prems(1) have "push_bits_loop n bits ?h3 ?oi = (hse', oi')"
      by (simp add: Let_def)
    from Suc.IH [OF this] have "push_bits_frame ?h3 hse'"
      "hse_bit_index hse' \<in> {0x80, 0x40, 0x20, 0x10, 0x08, 0x04, 0x02, 0x01}"
      by simp_all
    then show ?thesis
      by (simp add: push_bits_frame_def split: if_splits)
  next
    case False
    with Suc.prems(1) have "push_bits_loop n bits ?h2 oi = (hse', oi')"
      by (simp add: Let_def)
    moreover from False sh b1 have
      "hse_bit_index ?h2 \<in> {0x80, 0x40, 0x20, 0x10, 0x08, 0x04, 0x02, 0x01}"
      by simp
    ultimately have "push_bits_frame ?h2 hse'"
      "hse_bit_index hse' \<in> {0x80, 0x40, 0x20, 0x10, 0x08, 0x04, 0x02, 0x01}"
      using Suc.IH by blast+
    then show ?thesis
      by (simp add: push_bits_frame_def split: if_splits)
  qed
qed

lemma push_bits_frame_inv:
  assumes "push_bits_frame hse hse'" and "encoder_inv hse"
    and "hse_bit_index hse' \<in> {0x80, 0x40, 0x20, 0x10, 0x08, 0x04, 0x02, 0x01}"
  shows "encoder_inv hse'"
  using assms
  by (simp add: push_bits_frame_def encoder_inv_def encoder_config_ok_def is_finishing_def)

lemma push_bits_ok:
  assumes "push_bits hse count bits oi = (hse', oi')" and "encoder_inv hse"
  shows "encoder_inv hse' \<and> push_bits_frame hse hse'"
proof -
  from assms(2) have "hse_bit_index hse \<in> {0x80, 0x40, 0x20, 0x10, 0x08, 0x04, 0x02, 0x01}"
    by (simp add: encoder_inv_def)
  from push_bits_loop_ok [OF assms(1) [unfolded push_bits_def] this] assms(2)
  show ?thesis
    by (auto intro: push_bits_frame_inv)
qed


lemma memcpy_at_length:
  "off + n \<le> length dst \<Longrightarrow> n \<le> length src \<Longrightarrow> length (memcpy_at dst off src n) = length dst"
  by (simp add: memcpy_at_def)

lemma encoder_inv_sink:
  assumes "encoder_inv hse"
  shows "encoder_inv (snd (snd (heatshrink_encoder_sink hse in_buf)))"
proof (cases "is_finishing hse \<or> hse_state hse \<noteq> HSES_NOT_FULL")
  case True
  with assms show ?thesis
    by (auto simp: heatshrink_encoder_sink_def)
next
  case False
  from assms have cfg: "encoder_config_ok hse"
    and i1: "unat (hse_input_size hse) \<le> 2 ^ unat (hse_window_sz2 hse)"
    and a1: "unat (hse_match_scan_index hse) + unat (hse_match_length hse)
               \<le> unat (hse_input_size hse)"
    and i4: "hse_bit_index hse \<in> {0x80, 0x40, 0x20, 0x10, 0x08, 0x04, 0x02, 0x01}"
    by (simp_all add: encoder_inv_def)
  define N where "N = (2::nat) ^ unat (hse_window_sz2 hse)"
  define ibs where "ibs = get_input_buffer_size hse"
  define rem where "rem = ibs - hse_input_size hse"
  define cp_sz where "cp_sz = (if unat rem < length in_buf then rem else of_nat (length in_buf))"
  define wo where "wo = get_input_offset hse + hse_input_size hse"
  have N: "unat ibs = N" "N \<le> 32768"
    using unat_get_input_buffer_size [OF cfg] window_size_bound [OF cfg]
    by (simp_all add: ibs_def N_def)
  from i1 N have le: "hse_input_size hse \<le> ibs"
    by (simp add: word_le_nat_alt N_def)
  then have rem: "unat rem = N - unat (hse_input_size hse)"
    by (simp add: rem_def unat_sub N)
  have remlt: "unat rem < 65536"
    using rem N by simp
  have cp: "unat cp_sz \<le> unat rem" "unat cp_sz \<le> length in_buf"
    using remlt by (auto simp: cp_sz_def unat_of_nat)
  have sum: "unat (hse_input_size hse + cp_sz) = unat (hse_input_size hse) + unat cp_sz"
    using cp(1) rem N i1 by (simp add: unat_word_ariths N_def)
  have i1': "unat (hse_input_size hse + cp_sz) \<le> N"
    using sum cp(1) rem i1 by (simp add: N_def)
  have full: "cp_sz = rem \<Longrightarrow> unat (hse_input_size hse + cp_sz) = N"
    using sum rem i1 by (simp add: N_def)
  have "unat wo \<le> N + unat (hse_input_size hse)"
    using N by (simp add: wo_def get_input_offset_def ibs_def [symmetric] unat_word_ariths)
  then have "unat wo + unat cp_sz \<le> length (hse_buffer hse)"
    using cp(1) rem i1 cfg by (simp add: encoder_config_ok_def N_def)
  then have len: "length (memcpy_at (hse_buffer hse) (unat wo) in_buf (unat cp_sz))
      = length (hse_buffer hse)"
    using cp(2) by (rule memcpy_at_length)
  have eq: "snd (snd (heatshrink_encoder_sink hse in_buf)) =
      (if cp_sz = rem
       then hse\<lparr> hse_buffer := memcpy_at (hse_buffer hse) (unat wo) in_buf (unat cp_sz),
                  hse_input_size := hse_input_size hse + cp_sz, hse_state := HSES_FILLED \<rparr>
       else hse\<lparr> hse_buffer := memcpy_at (hse_buffer hse) (unat wo) in_buf (unat cp_sz),
                  hse_input_size := hse_input_size hse + cp_sz \<rparr>)"
    using False unfolding cp_sz_def wo_def rem_def ibs_def
    by (auto simp: heatshrink_encoder_sink_def Let_def)
  from False cfg a1 i4 i1' full len sum show ?thesis
    unfolding eq
    by (auto simp: encoder_inv_def encoder_config_ok_def is_finishing_def N_def)
qed

lemma encoder_inv_save_backlog:
  assumes "encoder_inv hse" and "st \<noteq> HSES_FILLED"
  shows "encoder_inv ((save_backlog hse)\<lparr> hse_state := st \<rparr>)"
proof -
  from assms have cfg: "encoder_config_ok hse"
    and i1: "unat (hse_input_size hse) \<le> 2 ^ unat (hse_window_sz2 hse)"
    and a1: "unat (hse_match_scan_index hse) + unat (hse_match_length hse)
               \<le> unat (hse_input_size hse)"
    and i4: "hse_bit_index hse \<in> {0x80, 0x40, 0x20, 0x10, 0x08, 0x04, 0x02, 0x01}"
    by (simp_all add: encoder_inv_def)
  define N where "N = (2::nat) ^ unat (hse_window_sz2 hse)"
  define ibs where "ibs = get_input_buffer_size hse"
  define rem where "rem = ibs - hse_match_scan_index hse"
  define shift_sz where "shift_sz = ibs + rem"
  define src_off where "src_off = nat ((uint ibs - uint rem) mod 2 ^ 64)"
  have N: "unat ibs = N" "N \<le> 32768"
    using unat_get_input_buffer_size [OF cfg] window_size_bound [OF cfg]
    by (simp_all add: ibs_def N_def)
  from a1 i1 have m: "unat (hse_match_scan_index hse) \<le> N"
    by (simp add: N_def)
  with N have "hse_match_scan_index hse \<le> ibs"
    by (simp add: word_le_nat_alt)
  then have rem: "unat rem = N - unat (hse_match_scan_index hse)"
    by (simp add: rem_def unat_sub N)
  have u: "uint ibs = int (unat ibs)" "uint rem = int (unat rem)"
    by simp_all
  have "0 \<le> int (unat ibs) - int (unat rem)"
    using rem N by linarith
  moreover have "int (unat ibs) - int (unat rem) < 18446744073709551616"
    using N by linarith
  then have "int (unat ibs) - int (unat rem) < 2 ^ 64"
    by (simp del: of_nat_unat)
  ultimately have "(int (unat ibs) - int (unat rem)) mod 2 ^ 64 = int (unat ibs) - int (unat rem)"
    by (rule mod_pos_pos_trivial)
  then have "src_off = nat (int (unat ibs) - int (unat rem))"
    unfolding src_off_def u by (rule arg_cong)
  then have "src_off = unat ibs - unat rem"
    by (simp only: nat_minus_as_int [symmetric])
  with rem N m have src: "src_off = unat (hse_match_scan_index hse)"
    by simp
  have "unat shift_sz \<le> N + unat rem"
    using N by (simp add: shift_sz_def unat_word_ariths)
  with rem have sh: "unat shift_sz \<le> 2 * N - unat (hse_match_scan_index hse)"
    using m by simp
  from cfg have blen: "length (hse_buffer hse) = 2 * N"
    by (simp add: encoder_config_ok_def N_def)
  have len: "length (take (unat shift_sz) (drop src_off (hse_buffer hse))
               @ drop (unat shift_sz) (hse_buffer hse)) = 2 * N"
    using sh blen src m by simp
  from a1 have "hse_match_scan_index hse \<le> hse_input_size hse"
    by (simp add: word_le_nat_alt)
  then have isz: "unat (hse_input_size hse - of_nat src_off)
      = unat (hse_input_size hse) - unat (hse_match_scan_index hse)"
    by (simp add: src unat_sub)
  have eq: "save_backlog hse =
      (let hse1 = hse\<lparr> hse_buffer := take (unat shift_sz) (drop src_off (hse_buffer hse))
                                       @ drop (unat shift_sz) (hse_buffer hse) \<rparr>;
           hse2 = (if backlog_is_partial hse1
                   then hse1\<lparr> hse_flags := hse_flags hse1 OR FLAG_BACKLOG_IS_FILLED \<rparr>
                   else hse1\<lparr> hse_flags := hse_flags hse1 OR FLAG_BACKLOG_IS_PARTIAL \<rparr>)
       in hse2\<lparr> hse_match_scan_index := 0,
                 hse_input_size := hse_input_size hse2 - of_nat src_off \<rparr>)"
    unfolding src_off_def shift_sz_def rem_def ibs_def
    by (simp add: save_backlog_def Let_def)
  from cfg a1 i1 i4 len isz assms(2) show ?thesis
    unfolding eq
    by (auto simp: Let_def encoder_inv_def encoder_config_ok_def N_def)
qed

lemma match_len_loop_le:
  "len \<le> maxlen \<Longrightarrow> match_len_loop b pos needle_index maxlen len \<le> maxlen"
proof (induction b pos needle_index maxlen len rule: match_len_loop.induct)
  case (1 b pos needle_index maxlen len)
  show ?case
  proof (cases "len < maxlen")
    case True
    then have "len + 1 \<le> maxlen"
      by (simp add: inc_le)
    with 1 True show ?thesis
      by (subst match_len_loop.simps) auto
  next
    case False
    with 1 show ?thesis
      by (subst match_len_loop.simps) simp
  qed
qed

lemma find_longest_match_scan_le:
  "match_maxlen \<le> maxlen \<Longrightarrow>
     fst (find_longest_match_scan b start needle_index maxlen pos match_maxlen match_index)
       \<le> maxlen"
proof (induction b start needle_index maxlen pos match_maxlen match_index
    rule: find_longest_match_scan.induct)
  case (1 b start needle_index maxlen pos match_maxlen match_index)
  define len where "len = match_len_loop b pos needle_index maxlen 0"
  have l: "len \<le> maxlen"
    unfolding len_def by (rule match_len_loop_le) simp
  have eq: "find_longest_match_scan b start needle_index maxlen pos match_maxlen match_index =
      (if len > 2 \<and> len > match_maxlen
       then (if len = maxlen then (len, pos)
             else if pos = start then (len, pos)
             else find_longest_match_scan b start needle_index maxlen (pos - 1) len pos)
       else (if pos = start then (match_maxlen, match_index)
             else find_longest_match_scan b start needle_index maxlen (pos - 1)
                    match_maxlen match_index))"
    unfolding len_def by (subst find_longest_match_scan.simps) (simp add: Let_def)
  show ?case
  proof (cases "len > 2 \<and> len > match_maxlen")
    case better: True
    show ?thesis
    proof (cases "len = maxlen \<or> pos = start")
      case True
      with better l show ?thesis
        unfolding eq by auto
    next
      case False
      with better have "fst (find_longest_match_scan b start needle_index maxlen (pos - 1) len pos)
          \<le> maxlen"
        using "1.IH"(1) [OF len_def] l by simp
      with better False show ?thesis
        unfolding eq by simp
    qed
  next
    case worse: False
    show ?thesis
    proof (cases "pos = start")
      case True
      with worse "1.prems" show ?thesis
        unfolding eq by auto
    next
      case False
      with worse have "fst (find_longest_match_scan b start needle_index maxlen (pos - 1)
          match_maxlen match_index) \<le> maxlen"
        using "1.IH"(2) [OF len_def] "1.prems" by simp
      with worse False show ?thesis
        unfolding eq by auto
    qed
  qed
qed


lemma find_longest_match_chain_le_aux:
  assumes "find_longest_match_chain b idx start needle_index maxlen pos match_maxlen match_index
     = Some r"
  shows "match_maxlen \<le> maxlen \<longrightarrow> fst r \<le> maxlen"
proof (rule find_longest_match_chain.raw_induct
    [where P = "\<lambda>b idx start needle_index maxlen pos match_maxlen match_index r.
                  match_maxlen \<le> maxlen \<longrightarrow> fst r \<le> maxlen", OF _ assms], goal_cases)
  case (1 chain b idx start needle_index maxlen pos match_maxlen match_index r)
  define len where "len = match_len_loop b pos needle_index maxlen 0"
  have l: "len \<le> maxlen"
    unfolding len_def by (rule match_len_loop_le) simp
  from 1(2) have eq:
    "(if pos \<noteq> MATCH_NOT_FOUND
      then (if len > 2 \<and> len > match_maxlen
            then (if len = maxlen then Some (len, pos)
                  else if idx ! unat pos < start then Some (len, pos)
                  else chain b idx start needle_index maxlen (idx ! unat pos) len pos)
            else (if idx ! unat pos < start then Some (match_maxlen, match_index)
                  else chain b idx start needle_index maxlen (idx ! unat pos)
                         match_maxlen match_index))
      else Some (match_maxlen, match_index)) = Some r"
    unfolding len_def Let_def .
  show ?case
  proof (intro impI)
    assume mm: "match_maxlen \<le> maxlen"
    show "fst r \<le> maxlen"
    proof (cases "pos \<noteq> MATCH_NOT_FOUND")
      case False
      with eq mm show ?thesis by auto
    next
      case True
      show ?thesis
      proof (cases "len > 2 \<and> len > match_maxlen")
        case better: True
        show ?thesis
        proof (cases "len = maxlen \<or> idx ! unat pos < start")
          case stop: True
          with True better l eq show ?thesis
            by (auto split: if_splits)
        next
          case False
          with True better eq have
            "chain b idx start needle_index maxlen (idx ! unat pos) len pos = Some r"
            by simp
          from 1(1) [OF this] l show ?thesis by simp
        qed
      next
        case worse: False
        show ?thesis
        proof (cases "idx ! unat pos < start")
          case stop: True
          with True worse mm eq show ?thesis
            by (auto split: if_splits)
        next
          case False
          with True worse eq have
            "chain b idx start needle_index maxlen (idx ! unat pos) match_maxlen match_index
               = Some r"
            by (auto split: if_splits)
          from 1(1) [OF this] mm show ?thesis by simp
        qed
      qed
    qed
  qed
qed

lemma find_longest_match_chain_le:
  "find_longest_match_chain b idx start needle_index maxlen pos match_maxlen match_index
     = Some (mm, mi) \<Longrightarrow> match_maxlen \<le> maxlen \<Longrightarrow> mm \<le> maxlen"
  using find_longest_match_chain_le_aux by fastforce


lemma find_longest_match_le:
  assumes "find_longest_match use_index hse start end' maxlen = Some (mp, ml)"
  shows "ml \<le> maxlen"
proof -
  define inner where "inner =
    (if use_index
     then (if hse_search_index hse ! unat end' < start then Some (0, MATCH_NOT_FOUND)
           else find_longest_match_chain (hse_buffer hse) (hse_search_index hse)
                  start end' maxlen (hse_search_index hse ! unat end') 0 MATCH_NOT_FOUND)
     else Some (find_longest_match_scan (hse_buffer hse) start end' maxlen
                  (end' - 1) 0 MATCH_NOT_FOUND))"
  have eq: "find_longest_match use_index hse start end' maxlen =
      (if start = end' then Some (MATCH_NOT_FOUND, 0)
       else (case inner of
               None \<Rightarrow> None
             | Some (match_maxlen, match_index) \<Rightarrow>
                 if match_maxlen > 0 then Some (end' - match_index, match_maxlen)
                 else Some (MATCH_NOT_FOUND, 0)))"
    unfolding inner_def find_longest_match_def ..
  have inner_le: "mm \<le> maxlen" if "inner = Some (mm, mi)" for mm mi
  proof (cases use_index)
    case False
    with that have "find_longest_match_scan (hse_buffer hse) start end' maxlen
        (end' - 1) 0 MATCH_NOT_FOUND = (mm, mi)"
      by (simp add: inner_def)
    with find_longest_match_scan_le [of 0 maxlen "hse_buffer hse" start end' "end' - 1"
        MATCH_NOT_FOUND]
    show ?thesis by simp
  next
    case True
    show ?thesis
    proof (cases "hse_search_index hse ! unat end' < start")
      case lt: True
      with True that show ?thesis
        by (simp add: inner_def)
    next
      case False
      with True that have "find_longest_match_chain (hse_buffer hse) (hse_search_index hse)
          start end' maxlen (hse_search_index hse ! unat end') 0 MATCH_NOT_FOUND = Some (mm, mi)"
        by (simp add: inner_def)
      from find_longest_match_chain_le [OF this] show ?thesis by simp
    qed
  qed
  show ?thesis
  proof (cases "start = end'")
    case True
    with assms eq show ?thesis by simp
  next
    case False
    with assms eq obtain mm mi where i: "inner = Some (mm, mi)"
      by (cases inner) auto
    with assms eq False have "ml = mm \<or> ml = 0"
      by (auto split: if_splits)
    with inner_le [OF i] show ?thesis by auto
  qed
qed


lemma st_step_search_ok:
  assumes r: "st_step_search use_index hse = Some (st, hse')"
    and inv: "encoder_inv hse" and nf: "hse_state hse \<noteq> HSES_FILLED"
  shows "encoder_inv hse' \<and> hse_state hse' = hse_state hse \<and> st \<noteq> HSES_FILLED"
proof -
  from inv have cfg: "encoder_config_ok hse"
    and i1: "unat (hse_input_size hse) \<le> 2 ^ unat (hse_window_sz2 hse)"
    and a1: "unat (hse_match_scan_index hse) + unat (hse_match_length hse)
               \<le> unat (hse_input_size hse)"
    and i4: "hse_bit_index hse \<in> {0x80, 0x40, 0x20, 0x10, 0x08, 0x04, 0x02, 0x01}"
    by (simp_all add: encoder_inv_def)
  define msi where "msi = hse_match_scan_index hse"
  define isz where "isz = hse_input_size hse"
  define la where "la = get_lookahead_size hse"
  define end' where "end' = get_input_offset hse + msi"
  define start where "start =
      (if backlog_is_filled hse then end' - get_input_buffer_size hse + 1
       else if backlog_is_partial hse
       then (if end' - get_input_buffer_size hse + 1 < la then la
             else end' - get_input_buffer_size hse + 1)
       else get_input_offset hse)"
  define mp where "mp = (if uint isz - uint msi < uint la then isz - msi else la)"
  have eq: "st_step_search use_index hse =
      (if uint msi \<ge> uint isz - (if is_finishing hse then 0 else uint la)
       then Some (HSES_SAVE_BACKLOG, hse)
       else (case find_longest_match use_index hse start end' mp of
               None \<Rightarrow> None
             | Some (match_pos, match_length) \<Rightarrow>
                 if match_pos = MATCH_NOT_FOUND
                 then Some (HSES_YIELD_TAG_BIT,
                        hse\<lparr> hse_match_scan_index := msi + 1,
                             hse_flags := hse_flags hse OR FLAG_HAS_LITERAL,
                             hse_match_length := 0 \<rparr>)
                 else Some (HSES_YIELD_TAG_BIT,
                        hse\<lparr> hse_match_pos := match_pos,
                             hse_match_length := match_length \<rparr>)))"
    unfolding mp_def start_def end'_def la_def isz_def msi_def st_step_search_def Let_def ..
  show ?thesis
  proof (cases "uint msi \<ge> uint isz - (if is_finishing hse then 0 else uint la)")
    case True
    with r eq inv show ?thesis by simp
  next
    case False
    have "0 \<le> (if is_finishing hse then 0 else uint la)"
      by simp
    with False have lt: "uint msi < uint isz"
      by linarith
    then have ltn: "unat msi < unat isz"
      by (simp add: word_less_def [symmetric] word_less_nat_alt)
    then have sub: "unat (isz - msi) = unat isz - unat msi"
      by (simp add: unat_sub word_le_nat_alt)
    have mple: "unat mp \<le> unat isz - unat msi"
    proof (cases "uint isz - uint msi < uint la")
      case True
      then show ?thesis by (simp add: mp_def sub)
    next
      case ge: False
      have "uint la = int (unat la)" "uint isz = int (unat isz)" "uint msi = int (unat msi)"
        by simp_all
      with ge have "int (unat la) \<le> int (unat isz) - int (unat msi)"
        by linarith
      then have "unat la \<le> unat isz - unat msi"
        by linarith
      with ge show ?thesis by (simp add: mp_def)
    qed
    from r eq False obtain match_pos ml where
      f: "find_longest_match use_index hse start end' mp = Some (match_pos, ml)"
      by (auto split: option.splits)
    from find_longest_match_le [OF f] have "unat ml \<le> unat mp"
      by (simp add: word_le_nat_alt)
    with mple have mlle: "unat msi + unat ml \<le> unat isz"
      using ltn by linarith
    have "unat isz < 65536"
      using unsigned_less [of isz, where ?'a = nat] by simp
    with ltn have suc: "unat (msi + 1) = unat msi + 1"
      by (simp add: unat_word_ariths)
    show ?thesis
    proof (cases "match_pos = MATCH_NOT_FOUND")
      case True
      with r eq False f have
        "hse' = hse\<lparr> hse_match_scan_index := msi + 1,
                       hse_flags := hse_flags hse OR FLAG_HAS_LITERAL,
                       hse_match_length := 0 \<rparr>" "st = HSES_YIELD_TAG_BIT"
        by simp_all
      with cfg i1 i4 suc ltn nf show ?thesis
        by (simp add: encoder_inv_def encoder_config_ok_def isz_def)
    next
      case nm: False
      with r eq False f have
        "hse' = hse\<lparr> hse_match_pos := match_pos, hse_match_length := ml \<rparr>"
        "st = HSES_YIELD_TAG_BIT"
        by simp_all
      with cfg i1 i4 mlle nf show ?thesis
        by (simp add: encoder_inv_def encoder_config_ok_def isz_def msi_def)
    qed
  qed
qed


lemma encoder_inv_outgoing_update [simp]:
  "encoder_inv (hse\<lparr> hse_outgoing_bits := x \<rparr>) = encoder_inv hse"
  "encoder_inv (hse\<lparr> hse_outgoing_bits_count := y \<rparr>) = encoder_inv hse"
  "encoder_inv (hse\<lparr> hse_match_pos := z \<rparr>) = encoder_inv hse"
  by (simp_all add: encoder_inv_def encoder_config_ok_def is_finishing_def)

lemma encoder_inv_flags_update:
  "hse_state hse \<noteq> HSES_FILLED \<Longrightarrow>
     encoder_inv (hse\<lparr> hse_flags := f \<rparr>) = encoder_inv hse"
  by (simp add: encoder_inv_def encoder_config_ok_def)

lemma encoder_inv_state_update:
  "hse_state hse \<noteq> HSES_FILLED \<Longrightarrow> st \<noteq> HSES_FILLED \<Longrightarrow>
     encoder_inv (hse\<lparr> hse_state := st \<rparr>) = encoder_inv hse"
  by (simp add: encoder_inv_def encoder_config_ok_def)

lemma st_yield_tag_bit_ok:
  assumes r: "st_yield_tag_bit hse oi = (st, hse', oi')"
    and inv: "encoder_inv hse"
  shows "encoder_inv hse' \<and> hse_state hse' = hse_state hse \<and> st \<noteq> HSES_FILLED"
proof (cases "can_take_byte oi")
  case False
  with r inv show ?thesis by (simp add: st_yield_tag_bit_def)
next
  case True
  show ?thesis
  proof (cases "hse_match_length hse = 0")
    case z: True
    obtain h1 o1 where p: "push_bits hse 1 HEATSHRINK_LITERAL_MARKER oi = (h1, o1)"
      by (cases "push_bits hse 1 HEATSHRINK_LITERAL_MARKER oi")
    from push_bits_ok [OF p inv] r True z p show ?thesis
      by (simp add: st_yield_tag_bit_def add_tag_bit_def push_bits_frame_def)
  next
    case nz: False
    obtain h1 o1 where p: "push_bits hse 1 HEATSHRINK_BACKREF_MARKER oi = (h1, o1)"
      by (cases "push_bits hse 1 HEATSHRINK_BACKREF_MARKER oi")
    from push_bits_ok [OF p inv] r True nz p show ?thesis
      by (auto simp: st_yield_tag_bit_def add_tag_bit_def push_bits_frame_def)
  qed
qed

lemma hse_st_yield_literal_ok:
  assumes r: "hse_st_yield_literal hse oi = (st, hse', oi')"
    and inv: "encoder_inv hse" and nf: "hse_state hse \<noteq> HSES_FILLED"
  shows "encoder_inv hse' \<and> hse_state hse' = hse_state hse \<and> st \<noteq> HSES_FILLED"
proof (cases "can_take_byte oi")
  case False
  with r inv show ?thesis by (simp add: hse_st_yield_literal_def)
next
  case True
  obtain h1 o1 where p: "push_literal_byte hse oi = (h1, o1)"
    by (cases "push_literal_byte hse oi")
  from p have "push_bits hse 8
      (hse_buffer hse ! unat (get_input_offset hse + (hse_match_scan_index hse - 1))) oi = (h1, o1)"
    by (simp add: push_literal_byte_def Let_def)
  from push_bits_ok [OF this inv] have h1: "encoder_inv h1" "hse_state h1 = hse_state hse"
    by (simp_all add: push_bits_frame_def)
  let ?h2 = "h1\<lparr> hse_flags := hse_flags h1 AND NOT FLAG_HAS_LITERAL \<rparr>"
  from h1 nf have h2: "encoder_inv ?h2"
    by (simp add: encoder_inv_flags_update)
  from r True p have "hse' = ?h2"
    and "st = HSES_FLUSH_BITS \<or> st = HSES_YIELD_TAG_BIT \<or> st = HSES_SEARCH"
    by (auto simp: hse_st_yield_literal_def Let_def split: if_splits)
  with h2 h1 show ?thesis by auto
qed

lemma push_outgoing_bits_ok:
  assumes r: "push_outgoing_bits hse oi = (count, hse', oi')"
    and inv: "encoder_inv hse"
  shows "encoder_inv hse' \<and> hse_state hse' = hse_state hse
         \<and> hse_match_scan_index hse' = hse_match_scan_index hse
         \<and> hse_match_length hse' = hse_match_length hse
         \<and> hse_input_size hse' = hse_input_size hse"
proof -
  define cnt where "cnt = (if hse_outgoing_bits_count hse > 8 then 8
                            else hse_outgoing_bits_count hse)"
  define bits where "bits = (if hse_outgoing_bits_count hse > 8
                  then (ucast (drop_bit (unat (hse_outgoing_bits_count hse) - 8)
                                 (hse_outgoing_bits hse)) :: byte)
                  else ucast (hse_outgoing_bits hse))"
  obtain h1 o1 where p: "push_bits hse cnt bits oi = (h1, o1)"
    by (cases "push_bits hse cnt bits oi")
  have eq: "push_outgoing_bits hse oi =
      (cnt, h1\<lparr> hse_outgoing_bits_count := hse_outgoing_bits_count h1 - cnt \<rparr>, o1)"
    using p unfolding cnt_def bits_def push_outgoing_bits_def Let_def by simp
  from push_bits_ok [OF p inv] r eq show ?thesis
    by (auto simp: push_bits_frame_def)
qed

lemma st_yield_br_index_ok:
  assumes r: "st_yield_br_index hse oi = (st, hse', oi')"
    and inv: "encoder_inv hse"
  shows "encoder_inv hse' \<and> hse_state hse' = hse_state hse \<and> st \<noteq> HSES_FILLED"
proof (cases "can_take_byte oi")
  case False
  with r inv show ?thesis by (simp add: st_yield_br_index_def)
next
  case True
  obtain c h1 o1 where p: "push_outgoing_bits hse oi = (c, h1, o1)"
    by (cases "push_outgoing_bits hse oi")
  from push_outgoing_bits_ok [OF p inv] r True p show ?thesis
    by (auto simp: st_yield_br_index_def split: if_splits)
qed

lemma st_yield_br_length_ok:
  assumes r: "st_yield_br_length hse oi = (st, hse', oi')"
    and inv: "encoder_inv hse"
  shows "encoder_inv hse' \<and> hse_state hse' = hse_state hse \<and> st \<noteq> HSES_FILLED"
proof (cases "can_take_byte oi")
  case False
  with r inv show ?thesis by (simp add: st_yield_br_length_def)
next
  case True
  obtain c h1 o1 where p: "push_outgoing_bits hse oi = (c, h1, o1)"
    by (cases "push_outgoing_bits hse oi")
  from push_outgoing_bits_ok [OF p inv] have h1: "encoder_inv h1"
    "hse_state h1 = hse_state hse" by simp_all
  show ?thesis
  proof (cases "c > 0")
    case gt: True
    with r True p h1 show ?thesis
      by (simp add: st_yield_br_length_def)
  next
    case False
    from h1(1) have a1: "unat (hse_match_scan_index h1) + unat (hse_match_length h1)
        \<le> unat (hse_input_size h1)"
      by (simp add: encoder_inv_def)
    have "unat (hse_input_size h1) < 65536"
      using unsigned_less [of "hse_input_size h1", where ?'a = nat] by simp
    with a1 have "unat (hse_match_scan_index h1 + hse_match_length h1)
        = unat (hse_match_scan_index h1) + unat (hse_match_length h1)"
      by (simp add: unat_word_ariths)
    with a1 h1(1) have "encoder_inv
        (h1\<lparr> hse_match_scan_index := hse_match_scan_index h1 + hse_match_length h1,
             hse_match_length := 0 \<rparr>)"
      by (simp add: encoder_inv_def encoder_config_ok_def is_finishing_def)
    with r True p False h1(2) show ?thesis
      by (auto simp: st_yield_br_length_def)
  qed
qed

lemma st_save_backlog_ok:
  assumes r: "st_save_backlog hse = (st, hse')"
    and inv: "encoder_inv hse" and nf: "hse_state hse \<noteq> HSES_FILLED"
  shows "encoder_inv (hse'\<lparr> hse_state := st \<rparr>) \<and> st \<noteq> HSES_FILLED"
proof (cases "is_finishing hse")
  case True
  with r have "st \<noteq> HSES_FILLED"
    and "hse' = hse \<or> hse' = hse\<lparr> hse_flags := hse_flags hse OR FLAG_ON_FINAL_LITERAL \<rparr>"
    by (auto simp: st_save_backlog_def split: if_splits)
  with inv nf show ?thesis
    by (auto simp: encoder_inv_flags_update encoder_inv_state_update)
next
  case False
  with r have "st = HSES_NOT_FULL" "hse' = save_backlog hse"
    by (simp_all add: st_save_backlog_def)
  with encoder_inv_save_backlog [OF inv, of HSES_NOT_FULL] show ?thesis
    by simp
qed

lemma fold_do_indexing_length:
  "length (snd (fold (do_indexing_body data) xs st)) = length (snd st)"
  by (induction xs arbitrary: st) (simp_all add: do_indexing_body_def Let_def)

lemma do_indexing_ok:
  assumes "encoder_inv hse"
  shows "encoder_inv ((do_indexing use_index hse)\<lparr> hse_state := HSES_SEARCH \<rparr>)"
proof (cases use_index)
  case False
  with assms show ?thesis
    by (simp add: do_indexing_def encoder_inv_def encoder_config_ok_def)
next
  case True
  from assms have cfg: "encoder_config_ok hse"
    by (simp add: encoder_inv_def)
  define input_sz where "input_sz = 2 * get_input_buffer_size hse"
  have "unat input_sz \<le> 2 * unat (get_input_buffer_size hse)"
    by (simp add: input_sz_def unat_word_ariths)
  with cfg have "unat input_sz \<le> length (hse_search_index hse)"
    by (simp add: unat_get_input_buffer_size encoder_config_ok_def)
  then have "length (replicate (unat input_sz) (- 1 :: u16)
      @ drop (unat input_sz) (hse_search_index hse)) = length (hse_search_index hse)"
    by simp
  with True assms show ?thesis
    unfolding input_sz_def
    by (simp add: do_indexing_def Let_def fold_do_indexing_length encoder_inv_def
        encoder_config_ok_def)
qed


lemma encoder_poll_step_ok:
  assumes r: "encoder_poll_step use_index hse oi = Some (x, hse', oi')"
    and inv: "encoder_inv hse"
  shows "encoder_inv hse'"
proof (cases "hse_state hse")
  case HSES_NOT_FULL
  with r inv show ?thesis by (simp add: encoder_poll_step_def)
next
  case HSES_FILLED
  with r have "hse' = (do_indexing use_index hse)\<lparr> hse_state := HSES_SEARCH \<rparr>"
    by (simp add: encoder_poll_step_def)
  with do_indexing_ok [OF inv] show ?thesis by simp
next
  case HSES_SEARCH
  with r obtain st h where s: "st_step_search use_index hse = Some (st, h)"
    and h: "hse' = h\<lparr> hse_state := st \<rparr>"
    by (auto simp: encoder_poll_step_def split: option.splits if_splits)
  from st_step_search_ok [OF s inv] HSES_SEARCH h show ?thesis
    by (simp add: encoder_inv_state_update)
next
  case HSES_YIELD_TAG_BIT
  obtain st h o1 where s: "st_yield_tag_bit hse oi = (st, h, o1)"
    by (cases "st_yield_tag_bit hse oi")
  with r HSES_YIELD_TAG_BIT have h: "hse' = h\<lparr> hse_state := st \<rparr>"
    by (auto simp: encoder_poll_step_def split: if_splits)
  from st_yield_tag_bit_ok [OF s inv] HSES_YIELD_TAG_BIT h show ?thesis
    by (simp add: encoder_inv_state_update)
next
  case HSES_YIELD_LITERAL
  obtain st h o1 where s: "hse_st_yield_literal hse oi = (st, h, o1)"
    by (cases "hse_st_yield_literal hse oi")
  with r HSES_YIELD_LITERAL have h: "hse' = h\<lparr> hse_state := st \<rparr>"
    by (auto simp: encoder_poll_step_def split: if_splits)
  from hse_st_yield_literal_ok [OF s inv] HSES_YIELD_LITERAL h show ?thesis
    by (simp add: encoder_inv_state_update)
next
  case HSES_YIELD_BR_INDEX
  obtain st h o1 where s: "st_yield_br_index hse oi = (st, h, o1)"
    by (cases "st_yield_br_index hse oi")
  with r HSES_YIELD_BR_INDEX have h: "hse' = h\<lparr> hse_state := st \<rparr>"
    by (auto simp: encoder_poll_step_def split: if_splits)
  from st_yield_br_index_ok [OF s inv] HSES_YIELD_BR_INDEX h show ?thesis
    by (simp add: encoder_inv_state_update)
next
  case HSES_YIELD_BR_LENGTH
  obtain st h o1 where s: "st_yield_br_length hse oi = (st, h, o1)"
    by (cases "st_yield_br_length hse oi")
  with r HSES_YIELD_BR_LENGTH have h: "hse' = h\<lparr> hse_state := st \<rparr>"
    by (auto simp: encoder_poll_step_def split: if_splits)
  from st_yield_br_length_ok [OF s inv] HSES_YIELD_BR_LENGTH h show ?thesis
    by (simp add: encoder_inv_state_update)
next
  case HSES_SAVE_BACKLOG
  obtain st h where s: "st_save_backlog hse = (st, h)"
    by (cases "st_save_backlog hse")
  with r HSES_SAVE_BACKLOG have h: "hse' = h\<lparr> hse_state := st \<rparr>"
    by (auto simp: encoder_poll_step_def split: if_splits)
  from st_save_backlog_ok [OF s inv] HSES_SAVE_BACKLOG h show ?thesis
    by simp
next
  case HSES_FLUSH_BITS
  obtain st o1 where s: "st_flush_bit_buffer hse oi = (st, o1)"
    by (cases "st_flush_bit_buffer hse oi")
  then have "st \<noteq> HSES_FILLED"
    by (auto simp: st_flush_bit_buffer_def split: if_splits)
  moreover from r s HSES_FLUSH_BITS have "hse' = hse\<lparr> hse_state := st \<rparr>"
    by (simp add: encoder_poll_step_def)
  ultimately show ?thesis
    using inv HSES_FLUSH_BITS by (simp add: encoder_inv_state_update)
next
  case HSES_DONE
  with r inv show ?thesis by (simp add: encoder_poll_step_def)
qed

lemma encoder_poll_loop_inv_aux:
  assumes "encoder_poll_loop use_index hse oi = Some r"
  shows "encoder_inv hse \<longrightarrow> encoder_inv (fst (snd r))"
proof (rule encoder_poll_loop.raw_induct
    [where P = "\<lambda>use_index hse oi r. encoder_inv hse \<longrightarrow> encoder_inv (fst (snd r))",
     OF _ assms], goal_cases)
  case (1 loop use_index hse oi r)
  show ?case
  proof (intro impI)
    assume inv: "encoder_inv hse"
    from 1(2) obtain x h o1 where s: "encoder_poll_step use_index hse oi = Some (x, h, o1)"
      by (cases "encoder_poll_step use_index hse oi") auto
    from encoder_poll_step_ok [OF s inv] have h: "encoder_inv h" .
    show "encoder_inv (fst (snd r))"
    proof (cases x)
      case None
      with 1(2) s have "loop use_index h o1 = Some r" by simp
      from 1(1) [OF this] h show ?thesis by simp
    next
      case (Some pr)
      with 1(2) s h show ?thesis by auto
    qed
  qed
qed

lemma heatshrink_encoder_poll_inv:
  assumes "heatshrink_encoder_poll use_index hse out_buf = Some (pr, hse', oi')"
    and "encoder_inv hse"
  shows "encoder_inv hse'"
proof (cases "length out_buf = 0")
  case True
  with assms show ?thesis by (simp add: heatshrink_encoder_poll_def)
next
  case False
  with assms(1) have "encoder_poll_loop use_index hse
      \<lparr> buf = out_buf, buf_size = length out_buf, output_size = 0 \<rparr> = Some (pr, hse', oi')"
    by (simp add: heatshrink_encoder_poll_def)
  from encoder_poll_loop_inv_aux [OF this] assms(2) show ?thesis by simp
qed

lemma encoder_reach_inv: "encoder_reach use_index hse \<Longrightarrow> encoder_inv hse"
proof (induction rule: encoder_reach.induct)
  case (enc_reach_alloc window_sz2 lookahead_sz2 mp idx hse)
  then show ?case by (rule encoder_inv_alloc)
next
  case (enc_reach_reset hse)
  then show ?case by (simp add: encoder_inv_reset)
next
  case (enc_reach_sink hse in_buf r n hse')
  with encoder_inv_sink [of hse in_buf] show ?case by simp
next
  case (enc_reach_poll hse out_buf pr hse' oi')
  then show ?case by (auto intro: heatshrink_encoder_poll_inv)
next
  case (enc_reach_finish hse fr hse')
  with encoder_inv_finish [of hse] show ?case by simp
qed

lemma encoder_inv_spec: "encoder_inv hse \<Longrightarrow> encoder_spec_inv hse"
  by (auto simp: encoder_inv_def encoder_spec_inv_def word_le_nat_alt)

section \<open>C6: the encoder's state invariants\<close>

text \<open>
  C6.  In every state the encoder can be in (allocation, then any sequence of
  \<^verbatim>\<open>reset\<close>, \<^verbatim>\<open>sink\<close>, \<^verbatim>\<open>poll\<close> and \<^verbatim>\<open>finish\<close> calls with any arguments,
  with or without the search index), the invariants of the specification hold:
  \<open>input_size \<le> 2 ^ W\<close>; \<open>match_scan_index \<le> input_size\<close>; in state \<^verbatim>\<open>FILLED\<close>,
  \<open>input_size = 2 ^ W\<close> or \<^verbatim>\<open>IS_FINISHING\<close> is set; \<open>bit_index\<close> is one of
  \<open>0x80, 0x40, 0x20, 0x10, 0x08, 0x04, 0x02, 0x01\<close>.  So each operation, applied to a state
  the encoder can be in, gives a state that satisfies them.  (The four properties alone
  are not inductive: the proof carries \<open>match_scan_index + match_length \<le> input_size\<close>
  as well, see \<open>encoder_inv\<close>.)
\<close>

theorem encoder_invariants:
  assumes "encoder_reach use_index hse"
  shows "encoder_spec_inv hse"
  using assms by (intro encoder_inv_spec encoder_reach_inv)

theorem encoder_invariants_witness:
  "encoder_spec_inv
     (fst (snd (the (heatshrink_encoder_poll False
        (snd (heatshrink_encoder_finish
          (snd (snd (heatshrink_encoder_sink (the (heatshrink_encoder_alloc 4 3 0 []))
             [0x61, 0x61, 0x61, 0x61, 0x62]))))) [0, 0]))))"
proof -
  let ?e0 = "the (heatshrink_encoder_alloc 4 3 0 [])"
  let ?e1 = "snd (snd (heatshrink_encoder_sink ?e0 [0x61, 0x61, 0x61, 0x61, 0x62]))"
  let ?e2 = "snd (heatshrink_encoder_finish ?e1)"
  let ?p = "heatshrink_encoder_poll False ?e2 [0, 0]"
  have "heatshrink_encoder_alloc 4 3 0 [] = Some ?e0"
    by (simp add: heatshrink_encoder_alloc_def decoder_config_defs)
  then have "encoder_reach False ?e0"
    by (rule enc_reach_alloc)
  moreover have "heatshrink_encoder_sink ?e0 [0x61, 0x61, 0x61, 0x61, 0x62] =
      (fst (heatshrink_encoder_sink ?e0 [0x61, 0x61, 0x61, 0x61, 0x62]),
       fst (snd (heatshrink_encoder_sink ?e0 [0x61, 0x61, 0x61, 0x61, 0x62])), ?e1)"
    by simp
  ultimately have "encoder_reach False ?e1"
    by (rule enc_reach_sink)
  moreover have "heatshrink_encoder_finish ?e1 = (fst (heatshrink_encoder_finish ?e1), ?e2)"
    by simp
  ultimately have r2: "encoder_reach False ?e2"
    by (rule enc_reach_finish)
  have "?p \<noteq> None"
    by code_simp
  then have "?p = Some (fst (the ?p), fst (snd (the ?p)), snd (snd (the ?p)))"
    by (cases ?p) simp_all
  with r2 have "encoder_reach False (fst (snd (the ?p)))"
    by (rule enc_reach_poll)
  then show ?thesis
    by (rule encoder_invariants)
qed

section \<open>C10: a decoder sink of zero bytes\<close>

text \<open>
  C10.  When \<^verbatim>\<open>heatshrink_decoder_sink\<close> is called with no bytes (\<^verbatim>\<open>size = 0\<close>) on a
  decoder in state \<^verbatim>\<open>HSDS_EMPTY\<close> whose input region is not full, it returns
  \<^verbatim>\<open>HSDR_SINK_OK\<close> with \<open>0\<close> bytes accepted and still moves the state to
  \<^verbatim>\<open>HSDS_INPUT_AVAILABLE\<close> (nothing else changes but \<open>input_index\<close>, which is cleared).
  \<^verbatim>\<open>heatshrink_decoder_finish\<close>, which answered \<^verbatim>\<open>HSDR_FINISH_DONE\<close> before the call,
  answers \<^verbatim>\<open>HSDR_FINISH_MORE\<close> after it, although no byte was provided.
\<close>

theorem decoder_sink_zero_bytes_when_empty:
  assumes "hsd_state hsd = HSDS_EMPTY"
    and "hsd_input_size hsd < hsd_input_buffer_size hsd"
    and "unat (hsd_input_buffer_size hsd) \<le> length (hsd_buffers hsd)"
  shows "heatshrink_decoder_sink hsd [] =
           Inr (HSDR_SINK_OK, 0, hsd\<lparr> hsd_state := HSDS_INPUT_AVAILABLE, hsd_input_index := 0 \<rparr>)
         \<and> heatshrink_decoder_finish hsd = HSDR_FINISH_DONE
         \<and> heatshrink_decoder_finish
             (hsd\<lparr> hsd_state := HSDS_INPUT_AVAILABLE, hsd_input_index := 0 \<rparr>) = HSDR_FINISH_MORE"
proof (intro conjI)
  from assms(2) have lt: "uint (hsd_input_size hsd) < uint (hsd_input_buffer_size hsd)"
    by (simp add: word_less_def)
  have "uint (hsd_input_buffer_size hsd) < 2 ^ 64"
    using uint_lt2p [of "hsd_input_buffer_size hsd"] by simp
  moreover have "0 \<le> uint (hsd_input_size hsd)"
    by simp
  ultimately have "(uint (hsd_input_buffer_size hsd) - uint (hsd_input_size hsd)) mod 2 ^ 64
      = uint (hsd_input_buffer_size hsd) - uint (hsd_input_size hsd)"
    using lt by (intro mod_pos_pos_trivial; linarith)
  with lt have rem: "nat ((uint (hsd_input_buffer_size hsd) - uint (hsd_input_size hsd)) mod 2 ^ 64) \<noteq> 0"
    by simp
  from assms(2) have "unat (hsd_input_size hsd) \<le> unat (hsd_input_buffer_size hsd)"
    by (simp add: word_less_nat_alt)
  with rem assms(1,3) show "heatshrink_decoder_sink hsd [] =
      Inr (HSDR_SINK_OK, 0, hsd\<lparr> hsd_state := HSDS_INPUT_AVAILABLE, hsd_input_index := 0 \<rparr>)"
    by (simp add: heatshrink_decoder_sink_def memcpy_at_def Let_def)
  from assms(1) show "heatshrink_decoder_finish hsd = HSDR_FINISH_DONE"
    by (simp add: heatshrink_decoder_finish_def)
  show "heatshrink_decoder_finish (hsd\<lparr> hsd_state := HSDS_INPUT_AVAILABLE, hsd_input_index := 0 \<rparr>)
      = HSDR_FINISH_MORE"
    by (simp add: heatshrink_decoder_finish_def)
qed

theorem decoder_sink_zero_bytes_witness:
  "heatshrink_decoder_sink (the (heatshrink_decoder_alloc 256 7 7)) [] =
     Inr (HSDR_SINK_OK, 0,
          (the (heatshrink_decoder_alloc 256 7 7))
            \<lparr> hsd_state := HSDS_INPUT_AVAILABLE, hsd_input_index := 0 \<rparr>)
   \<and> heatshrink_decoder_finish (the (heatshrink_decoder_alloc 256 7 7)) = HSDR_FINISH_DONE
   \<and> heatshrink_decoder_finish
       ((the (heatshrink_decoder_alloc 256 7 7))
          \<lparr> hsd_state := HSDS_INPUT_AVAILABLE, hsd_input_index := 0 \<rparr>) = HSDR_FINISH_MORE"
  using decoder_sink_zero_bytes_when_empty [of "the (heatshrink_decoder_alloc 256 7 7)"]
  by (simp add: heatshrink_decoder_alloc_def heatshrink_decoder_reset_def decoder_config_defs)

section \<open>C3: underflow in \<^verbatim>\<open>get_bits\<close> and its callers\<close>

text \<open>
  C3.  The claim is that \<^verbatim>\<open>get_bits\<close> signals underflow exactly when fewer bits than
  requested remain, and that on underflow the calling state function stays in its state.
  \<^verbatim>\<open>st_yield_literal\<close>, \<^verbatim>\<open>st_backref_index\<close> and \<^verbatim>\<open>st_backref_count\<close> compare the
  result with \<^verbatim>\<open>(uint32_t)-1\<close>; \<^verbatim>\<open>st_input_available\<close> does not.  On a decoder
  allocated with a 256-byte input region, \<open>W = 7\<close>, \<open>L = 3\<close>, after a sink of zero bytes
  (state \<^verbatim>\<open>HSDS_INPUT_AVAILABLE\<close>, no bit available): the request for the tag bit signals
  underflow and leaves the decoder as it was, and \<^verbatim>\<open>st_input_available\<close> answers
  \<^verbatim>\<open>HSDS_YIELD_LITERAL\<close>, as if a tag bit \<open>1\<close> had been read.
\<close>

theorem st_input_available_ignores_underflow:
  "(case heatshrink_decoder_alloc 256 7 3 of
      Some d \<Rightarrow>
        (case heatshrink_decoder_sink d [] of
           Inr (r, n, d1) \<Rightarrow>
             (r, n, hsd_state d1, hsd_input_size d1, hsd_bit_index d1,
              get_bits d1 1 = Inr (- 1, d1),
              st_input_available d1 = Inr (HSDS_YIELD_LITERAL, d1))))
   = (HSDR_SINK_OK, 0, HSDS_INPUT_AVAILABLE, 0, 0, True, True)"
  by (simp add: heatshrink_decoder_alloc_def heatshrink_decoder_reset_def decoder_config_defs
      heatshrink_decoder_sink_def memcpy_at_def st_input_available_def get_bits_def Let_def)

section \<open>C4: the encoder's poll loop when the output buffer is full\<close>

text \<open>
  C4.  The claim is that a state that cannot go on because the output buffer is full is
  left unchanged and that the poll loop then returns \<^verbatim>\<open>HSER_POLL_MORE\<close>, in particular
  in \<^verbatim>\<open>HSES_FLUSH_BITS\<close> with a partial byte pending.  The \<^verbatim>\<open>switch\<close> has no
  \<^verbatim>\<open>break\<close> after \<^verbatim>\<open>case HSES_FLUSH_BITS\<close>.  With \<open>W = 4\<close>, \<open>L = 3\<close>, the one input byte
  \<open>0x61\<close>, \<^verbatim>\<open>finish\<close> and a poll into a one-byte buffer: the poll writes \<open>0xB0\<close>, reaches
  \<^verbatim>\<open>HSES_FLUSH_BITS\<close> with the buffer full and the partial byte \<open>0x80\<close> pending
  (\<open>bit_index = 0x40\<close>), stays in that state and returns \<^verbatim>\<open>HSER_POLL_EMPTY\<close>;
  \<^verbatim>\<open>finish\<close> then answers \<^verbatim>\<open>HSER_FINISH_MORE\<close>.
\<close>

theorem encoder_poll_flush_bits_full_returns_empty:
  "(case heatshrink_encoder_alloc 4 3 0 [] of
      Some e \<Rightarrow>
        (let (r, n, e1) = heatshrink_encoder_sink e [0x61];
             (fr, e3) = heatshrink_encoder_finish e1
         in (case heatshrink_encoder_poll False e3 [0] of
               Some (pr, e4, oi) \<Rightarrow>
                 (pr, buf oi, unat (output_size oi) = buf_size oi, hse_state e4,
                  hse_bit_index e4, hse_current_byte e4,
                  fst (heatshrink_encoder_finish e4)))))
   = (HSER_POLL_EMPTY, [0xB0], True, HSES_FLUSH_BITS, 0x40, 0x80, HSER_FINISH_MORE)"
  by code_simp

section \<open>C7: the match that \<^verbatim>\<open>find_longest_match\<close> returns\<close>

lemma take_drop_step:
  "n < length b \<Longrightarrow> take (Suc k) (drop n b) = b ! n # take k (drop (Suc n) b)"
  by (simp add: Cons_nth_drop_Suc [symmetric])

lemma match_len_loop_spec:
  "len \<le> maxlen \<Longrightarrow> unat needle_index + unat maxlen \<le> length b \<Longrightarrow>
   unat pos + unat maxlen \<le> length b \<Longrightarrow>
     unat (match_len_loop b pos needle_index maxlen len) =
       unat len + common_prefix_length
         (take (unat maxlen - unat len) (drop (unat pos + unat len) b))
         (take (unat maxlen - unat len) (drop (unat needle_index + unat len) b))"
proof (induction b pos needle_index maxlen len rule: match_len_loop.induct)
  case (1 b pos needle_index maxlen len)
  show ?case
  proof (cases "len < maxlen")
    case False
    with "1.prems"(1) have "len = maxlen" by simp
    then show ?thesis
      by (subst match_len_loop.simps) simp
  next
    case True
    then have lt: "unat len < unat maxlen"
      by (simp add: word_less_nat_alt)
    then obtain k where k: "unat maxlen - unat len = Suc k"
      by (cases "unat maxlen - unat len") simp_all
    from True have suc: "unat (len + 1) = Suc (unat len)"
      by unat_arith
    from lt "1.prems" have inb: "unat pos + unat len < length b"
      "unat needle_index + unat len < length b"
      by simp_all
    have t1: "take (Suc k) (drop (unat pos + unat len) b) =
        b ! (unat pos + unat len) # take k (drop (Suc (unat pos + unat len)) b)"
      using inb(1) by (rule take_drop_step)
    have t2: "take (Suc k) (drop (unat needle_index + unat len) b) =
        b ! (unat needle_index + unat len) # take k (drop (Suc (unat needle_index + unat len)) b)"
      using inb(2) by (rule take_drop_step)
    show ?thesis
    proof (cases "b ! (unat pos + unat len) \<noteq> b ! (unat needle_index + unat len)")
      case ne: True
      with True show ?thesis
        by (subst match_len_loop.simps) (simp add: k t1 t2)
    next
      case eq: False
      from True have le': "len + 1 \<le> maxlen"
        by (simp add: inc_le)
      have k': "unat maxlen - unat (len + 1) = k"
        using k suc by simp
      from "1.IH" [OF True _ le' "1.prems"(2,3)] eq
      have "unat (match_len_loop b pos needle_index maxlen (len + 1)) =
          unat (len + 1) + common_prefix_length
            (take k (drop (unat pos + unat (len + 1)) b))
            (take k (drop (unat needle_index + unat (len + 1)) b))"
        by (simp add: k')
      with True eq show ?thesis
        by (subst match_len_loop.simps) (simp add: k t1 t2 suc)
    qed
  qed
qed

lemma match_len_loop_match_length_at:
  assumes "unat needle_index + unat maxlen \<le> length b" and "pos \<le> needle_index"
  shows "unat (match_len_loop b pos needle_index maxlen 0) =
           match_length_at b (unat pos) (unat needle_index) (unat maxlen)"
proof -
  from assms have "unat pos + unat maxlen \<le> length b"
    by (simp add: word_le_nat_alt)
  from match_len_loop_spec [OF _ assms(1) this, of 0] show ?thesis
    by (simp add: match_length_at_def)
qed

lemma word_pred_facts:
  fixes pos start :: u16
  assumes "start \<le> pos" and "pos \<noteq> start"
  shows "start \<le> pos - 1" and "pos - 1 < pos" and "\<And>q. pos - 1 < q \<longleftrightarrow> pos \<le> q"
proof -
  from assms have lt: "start < pos" by simp
  then show "start \<le> pos - 1" by unat_arith
  from lt show "pos - 1 < pos" by unat_arith
  fix q :: u16
  from lt show "pos - 1 < q \<longleftrightarrow> pos \<le> q" by unat_arith
qed

lemma find_longest_match_scan_spec:
  "find_longest_match_scan b start needle_index maxlen pos mm mi = (rm, ri) \<Longrightarrow>
   start \<le> pos \<Longrightarrow> pos < needle_index \<Longrightarrow>
   (mm = 0 \<and> (\<forall>q. pos < q \<and> q < needle_index
        \<longrightarrow> match_len_loop b q needle_index maxlen 0 \<le> 2)) \<or>
   (2 < mm \<and> pos < mi \<and> mi < needle_index \<and> match_len_loop b mi needle_index maxlen 0 = mm \<and>
    (\<forall>q. pos < q \<and> q < needle_index \<longrightarrow> match_len_loop b q needle_index maxlen 0 \<le> mm) \<and>
    (\<forall>q. mi < q \<and> q < needle_index \<longrightarrow> match_len_loop b q needle_index maxlen 0 < mm)) \<Longrightarrow>
   (rm = 0 \<and> (\<forall>q. start \<le> q \<and> q < needle_index
        \<longrightarrow> match_len_loop b q needle_index maxlen 0 \<le> 2)) \<or>
   (2 < rm \<and> start \<le> ri \<and> ri < needle_index \<and> match_len_loop b ri needle_index maxlen 0 = rm \<and>
    (\<forall>q. start \<le> q \<and> q < needle_index \<longrightarrow> match_len_loop b q needle_index maxlen 0 \<le> rm) \<and>
    (\<forall>q. ri < q \<and> q < needle_index \<longrightarrow> match_len_loop b q needle_index maxlen 0 < rm))"
proof (induction b start needle_index maxlen pos mm mi rule: find_longest_match_scan.induct)
  case (1 b start needle_index maxlen pos mm mi)
  let ?M = "\<lambda>q. match_len_loop b q needle_index maxlen 0"
  define len where "len = ?M pos"
  have lmax: "?M q \<le> maxlen" for q
    by (rule match_len_loop_le) simp
  have eq: "find_longest_match_scan b start needle_index maxlen pos mm mi =
      (if len > 2 \<and> len > mm
       then (if len = maxlen then (len, pos)
             else if pos = start then (len, pos)
             else find_longest_match_scan b start needle_index maxlen (pos - 1) len pos)
       else (if pos = start then (mm, mi)
             else find_longest_match_scan b start needle_index maxlen (pos - 1) mm mi))"
    unfolding len_def by (subst find_longest_match_scan.simps) (simp add: Let_def)
  note inv = "1.prems"(4)
  note sp = "1.prems"(2) and pn = "1.prems"(3)
  have above: "?M q < len" if "len > 2" "len > mm" "pos < q" "q < needle_index" for q
  proof -
    from inv that(3,4) have "?M q \<le> 2 \<or> ?M q \<le> mm" by auto
    with that(1,2) show ?thesis by auto
  qed
  show ?case
  proof (cases "len > 2 \<and> len > mm")
    case better: True
    show ?thesis
    proof (cases "len = maxlen \<or> pos = start")
      case stop: True
      have "find_longest_match_scan b start needle_index maxlen pos mm mi = (len, pos)"
        unfolding eq using better stop by auto
      with "1.prems"(1) have r: "rm = len" "ri = pos" by simp_all
      have all: "?M q \<le> len" if "start \<le> q" "q < needle_index" for q
      proof (cases "pos < q")
        case True
        with above [OF _ _ True that(2)] better show ?thesis by simp
      next
        case False
        show ?thesis
        proof (cases "len = maxlen")
          case True
          with lmax [of q] show ?thesis by simp
        next
          case nm: False
          with stop have "pos = start" by simp
          with False that(1) have "q = pos" by simp
          then show ?thesis by (simp add: len_def)
        qed
      qed
      from better above have "\<forall>q. pos < q \<and> q < needle_index \<longrightarrow> ?M q < len"
        by blast
      with r better sp pn all show ?thesis
        by (simp add: len_def)
    next
      case go: False
      have "find_longest_match_scan b start needle_index maxlen pos mm mi =
          find_longest_match_scan b start needle_index maxlen (pos - 1) len pos"
        unfolding eq using better go by auto
      with "1.prems"(1) have
        rec: "find_longest_match_scan b start needle_index maxlen (pos - 1) len pos = (rm, ri)"
        by simp
      from go sp have ps: "pos \<noteq> start" by simp
      note wp = word_pred_facts [OF sp ps]
      have inv': "2 < len \<and> pos - 1 < pos \<and> pos < needle_index \<and> ?M pos = len \<and>
          (\<forall>q. pos - 1 < q \<and> q < needle_index \<longrightarrow> ?M q \<le> len) \<and>
          (\<forall>q. pos < q \<and> q < needle_index \<longrightarrow> ?M q < len)"
      proof (intro conjI allI impI)
        from better show "2 < len" by simp
        show "pos - 1 < pos" by (rule wp(2))
        show "pos < needle_index" by (rule pn)
        show "?M pos = len" by (simp add: len_def)
      next
        fix q assume q: "pos - 1 < q \<and> q < needle_index"
        then have "pos \<le> q" by (simp add: wp(3))
        then have "q = pos \<or> pos < q" by auto
        with above [of q] better q show "?M q \<le> len"
          by (auto simp: len_def)
      next
        fix q assume "pos < q \<and> q < needle_index"
        with above [of q] better show "?M q < len" by simp
      qed
      from wp(2) pn have "pos - 1 < needle_index" by simp
      from "1.IH"(1) [OF len_def _ _ _ rec wp(1) this] better go inv'
      show ?thesis by simp
    qed
  next
    case worse: False
    have here: "(mm = 0 \<and> len \<le> 2) \<or> (2 < mm \<and> len \<le> mm)"
      using worse inv by (auto simp: not_less)
    show ?thesis
    proof (cases "pos = start")
      case True
      have "find_longest_match_scan b start needle_index maxlen pos mm mi = (mm, mi)"
        unfolding eq using worse True by auto
      with "1.prems"(1) have r: "rm = mm" "ri = mi" by simp_all
      have cover: "q = pos \<or> pos < q" if "start \<le> q" for q
        using that True by auto
      from inv show ?thesis
      proof (elim disjE conjE)
        assume z: "mm = 0" and a: "\<forall>q. pos < q \<and> q < needle_index \<longrightarrow> ?M q \<le> 2"
        with here have "len \<le> 2" by auto
        with a cover have "\<forall>q. start \<le> q \<and> q < needle_index \<longrightarrow> ?M q \<le> 2"
          by (auto simp: len_def)
        with r z show ?thesis by simp
      next
        assume g: "2 < mm" "pos < mi" "mi < needle_index" "?M mi = mm"
          and a: "\<forall>q. pos < q \<and> q < needle_index \<longrightarrow> ?M q \<le> mm"
          and c: "\<forall>q. mi < q \<and> q < needle_index \<longrightarrow> ?M q < mm"
        with here have "len \<le> mm" by auto
        with a cover have "\<forall>q. start \<le> q \<and> q < needle_index \<longrightarrow> ?M q \<le> mm"
          by (auto simp: len_def)
        moreover from g(2) sp have "start \<le> mi" by simp
        ultimately show ?thesis using r g c by simp
      qed
    next
      case ps: False
      have "find_longest_match_scan b start needle_index maxlen pos mm mi =
          find_longest_match_scan b start needle_index maxlen (pos - 1) mm mi"
        unfolding eq using worse ps by auto
      with "1.prems"(1) have
        rec: "find_longest_match_scan b start needle_index maxlen (pos - 1) mm mi = (rm, ri)"
        by simp
      note wp = word_pred_facts [OF sp ps]
      have cover: "q = pos \<or> pos < q" if "pos - 1 < q" for q
        using that wp(3) [of q] by auto
      have inv': "(mm = 0 \<and> (\<forall>q. pos - 1 < q \<and> q < needle_index \<longrightarrow> ?M q \<le> 2)) \<or>
          (2 < mm \<and> pos - 1 < mi \<and> mi < needle_index \<and> ?M mi = mm \<and>
           (\<forall>q. pos - 1 < q \<and> q < needle_index \<longrightarrow> ?M q \<le> mm) \<and>
           (\<forall>q. mi < q \<and> q < needle_index \<longrightarrow> ?M q < mm))"
        using inv
      proof (elim disjE conjE)
        assume z: "mm = 0" and a: "\<forall>q. pos < q \<and> q < needle_index \<longrightarrow> ?M q \<le> 2"
        with here have "len \<le> 2" by auto
        with a cover have "\<forall>q. pos - 1 < q \<and> q < needle_index \<longrightarrow> ?M q \<le> 2"
          by (auto simp: len_def)
        with z show ?thesis by simp
      next
        assume g: "2 < mm" "pos < mi" "mi < needle_index" "?M mi = mm"
          and a: "\<forall>q. pos < q \<and> q < needle_index \<longrightarrow> ?M q \<le> mm"
          and c: "\<forall>q. mi < q \<and> q < needle_index \<longrightarrow> ?M q < mm"
        with here have "len \<le> mm" by auto
        with a cover have "\<forall>q. pos - 1 < q \<and> q < needle_index \<longrightarrow> ?M q \<le> mm"
          by (auto simp: len_def)
        moreover from g(2) wp(2) have "pos - 1 < mi" by simp
        ultimately show ?thesis using g c by simp
      qed
      from wp(2) pn have "pos - 1 < needle_index" by simp
      from "1.IH"(2) [OF len_def _ _ rec wp(1) this inv'] worse ps
      show ?thesis by simp
    qed
  qed
qed


lemma common_prefix_length_same: "common_prefix_length xs xs = length xs"
  by (induction xs) simp_all

lemma match_len_loop_first_differs:
  assumes "b ! unat q \<noteq> b ! unat needle_index"
  shows "match_len_loop b q needle_index maxlen 0 = 0"
  using assms by (subst match_len_loop.simps) simp

lemma find_longest_match_chain_spec:
  "index_ok b idx (Suc (unat needle_index)) \<Longrightarrow>
   unat pos = k \<Longrightarrow> start \<le> pos \<Longrightarrow> pos < needle_index \<Longrightarrow>
   b ! unat pos = b ! unat needle_index \<Longrightarrow>
   (mm = 0 \<and> (\<forall>q. pos < q \<and> q < needle_index
        \<longrightarrow> match_len_loop b q needle_index maxlen 0 \<le> 2)) \<or>
   (2 < mm \<and> pos < mi \<and> mi < needle_index \<and> match_len_loop b mi needle_index maxlen 0 = mm \<and>
    (\<forall>q. pos < q \<and> q < needle_index \<longrightarrow> match_len_loop b q needle_index maxlen 0 \<le> mm) \<and>
    (\<forall>q. mi < q \<and> q < needle_index \<longrightarrow> match_len_loop b q needle_index maxlen 0 < mm)) \<Longrightarrow>
   \<exists>rm ri. find_longest_match_chain b idx start needle_index maxlen pos mm mi = Some (rm, ri) \<and>
     ((rm = 0 \<and> (\<forall>q. start \<le> q \<and> q < needle_index
          \<longrightarrow> match_len_loop b q needle_index maxlen 0 \<le> 2)) \<or>
      (2 < rm \<and> start \<le> ri \<and> ri < needle_index \<and> match_len_loop b ri needle_index maxlen 0 = rm \<and>
       (\<forall>q. start \<le> q \<and> q < needle_index \<longrightarrow> match_len_loop b q needle_index maxlen 0 \<le> rm) \<and>
       (\<forall>q. ri < q \<and> q < needle_index \<longrightarrow> match_len_loop b q needle_index maxlen 0 < rm)))"
proof (induction k arbitrary: pos mm mi rule: less_induct)
  case (less k)
  note ok = less.prems(1) and k = less.prems(2) and sp = less.prems(3) and pn = less.prems(4)
    and same = less.prems(5) and inv = less.prems(6)
  let ?M = "\<lambda>q. match_len_loop b q needle_index maxlen 0"
  define len where "len = ?M pos"
  define nxt where "nxt = idx ! unat pos"
  have lmax: "?M q \<le> maxlen" for q
    by (rule match_len_loop_le) simp
  have nf: "unat MATCH_NOT_FOUND = 65535"
    by (simp add: MATCH_NOT_FOUND_def unsigned_minus_1_eq_mask mask_eq_exp_minus_1)
  have top: "unat w \<le> 65535" for w :: u16
    using unsigned_less [of w, where ?'a = nat] by simp
  have pnf: "pos \<noteq> MATCH_NOT_FOUND"
  proof
    assume "pos = MATCH_NOT_FOUND"
    with pn have "65535 < unat needle_index"
      by (simp add: word_less_nat_alt nf)
    with top [of needle_index] show False by simp
  qed
  have eq: "find_longest_match_chain b idx start needle_index maxlen pos mm mi =
      (if len > 2 \<and> len > mm
       then (if len = maxlen then Some (len, pos)
             else if nxt < start then Some (len, pos)
             else find_longest_match_chain b idx start needle_index maxlen nxt len pos)
       else (if nxt < start then Some (mm, mi)
             else find_longest_match_chain b idx start needle_index maxlen nxt mm mi))"
    unfolding len_def nxt_def using pnf
    by (subst find_longest_match_chain.simps) (simp add: Let_def)
  have "unat pos < Suc (unat needle_index)"
    using pn by (simp add: word_less_nat_alt)
  with ok have v: "(nxt = MATCH_NOT_FOUND \<and> (\<forall>r < unat pos. b ! r \<noteq> b ! unat pos)) \<or>
      (unat nxt < unat pos \<and> b ! unat nxt = b ! unat pos \<and>
       (\<forall>r. unat nxt < r \<and> r < unat pos \<longrightarrow> b ! r \<noteq> b ! unat pos))"
    unfolding index_ok_def nxt_def by blast
  have gap: "?M q = 0" if "q < pos" "nxt = MATCH_NOT_FOUND \<or> nxt < q" for q
  proof -
    have "b ! unat q \<noteq> b ! unat pos"
      using v that top [of pos] by (auto simp: word_less_nat_alt nf)
    with same show ?thesis
      by (intro match_len_loop_first_differs) simp
  qed
  define mm' where "mm' = (if len > 2 \<and> len > mm then len else mm)"
  define mi' where "mi' = (if len > 2 \<and> len > mm then pos else mi)"
  have inv': "(mm' = 0 \<and> (\<forall>q. pos \<le> q \<and> q < needle_index \<longrightarrow> ?M q \<le> 2)) \<or>
      (2 < mm' \<and> pos \<le> mi' \<and> mi' < needle_index \<and> ?M mi' = mm' \<and>
       (\<forall>q. pos \<le> q \<and> q < needle_index \<longrightarrow> ?M q \<le> mm') \<and>
       (\<forall>q. mi' < q \<and> q < needle_index \<longrightarrow> ?M q < mm'))"
  proof (cases "len > 2 \<and> len > mm")
    case True
    have above: "?M q < len" if "pos < q" "q < needle_index" for q
    proof -
      from inv that have "?M q \<le> 2 \<or> ?M q \<le> mm" by auto
      with True show ?thesis by auto
    qed
    have "?M q \<le> len" if "pos \<le> q" "q < needle_index" for q
    proof (cases "q = pos")
      case True
      then show ?thesis by (simp add: len_def)
    next
      case False
      with that have "pos < q" by simp
      from above [OF this that(2)] show ?thesis by simp
    qed
    with True above pn show ?thesis
      by (auto simp: mm'_def mi'_def len_def)
  next
    case False
    have here: "(mm = 0 \<and> len \<le> 2) \<or> (2 < mm \<and> len \<le> mm)"
      using False inv by (auto simp: not_less)
    have cover: "q = pos \<or> pos < q" if "pos \<le> q" for q
      using that by auto
    have e: "mm' = mm" "mi' = mi"
      using False by (auto simp: mm'_def mi'_def)
    from inv show ?thesis
    proof (elim disjE conjE)
      assume z: "mm = 0" and a: "\<forall>q. pos < q \<and> q < needle_index \<longrightarrow> ?M q \<le> 2"
      with here have "len \<le> 2" by auto
      with a cover have "\<forall>q. pos \<le> q \<and> q < needle_index \<longrightarrow> ?M q \<le> 2"
        by (auto simp: len_def)
      with z show ?thesis by (simp add: e)
    next
      assume g: "2 < mm" "pos < mi" "mi < needle_index" "?M mi = mm"
        and a: "\<forall>q. pos < q \<and> q < needle_index \<longrightarrow> ?M q \<le> mm"
        and c: "\<forall>q. mi < q \<and> q < needle_index \<longrightarrow> ?M q < mm"
      with here have "len \<le> mm" by auto
      with a cover have "\<forall>q. pos \<le> q \<and> q < needle_index \<longrightarrow> ?M q \<le> mm"
        by (auto simp: len_def)
      moreover from g(2) have "pos \<le> mi" by simp
      ultimately show ?thesis using g c by (simp add: e)
    qed
  qed
  have final: "(mm' = 0 \<and> (\<forall>q. start \<le> q \<and> q < needle_index \<longrightarrow> ?M q \<le> 2)) \<or>
      (2 < mm' \<and> start \<le> mi' \<and> mi' < needle_index \<and> ?M mi' = mm' \<and>
       (\<forall>q. start \<le> q \<and> q < needle_index \<longrightarrow> ?M q \<le> mm') \<and>
       (\<forall>q. mi' < q \<and> q < needle_index \<longrightarrow> ?M q < mm'))"
    if stop: "(len > 2 \<and> len > mm \<and> len = maxlen) \<or> nxt < start \<or> nxt = MATCH_NOT_FOUND"
  proof -
    have rest: "?M q \<le> mm'" if "start \<le> q" "q < pos" for q
    proof (cases "len > 2 \<and> len > mm \<and> len = maxlen")
      case True
      then have "mm' = maxlen" by (auto simp: mm'_def)
      with lmax [of q] show ?thesis by simp
    next
      case False
      with stop have "nxt < start \<or> nxt = MATCH_NOT_FOUND" by simp
      with that have "nxt = MATCH_NOT_FOUND \<or> nxt < q" by auto
      from gap [OF that(2) this] show ?thesis by simp
    qed
    have rest2: "?M q \<le> 2" if "start \<le> q" "q < pos" "mm' = 0" for q
    proof -
      from rest [OF that(1,2)] that(3) show ?thesis by simp
    qed
    have split: "q < pos \<or> pos \<le> q" for q
      by auto
    from inv' show ?thesis
    proof (elim disjE conjE)
      assume z: "mm' = 0" and a: "\<forall>q. pos \<le> q \<and> q < needle_index \<longrightarrow> ?M q \<le> 2"
      have "\<forall>q. start \<le> q \<and> q < needle_index \<longrightarrow> ?M q \<le> 2"
        using a rest2 z split by blast
      with z show ?thesis by simp
    next
      assume g: "2 < mm'" "pos \<le> mi'" "mi' < needle_index" "?M mi' = mm'"
        and a: "\<forall>q. pos \<le> q \<and> q < needle_index \<longrightarrow> ?M q \<le> mm'"
        and c: "\<forall>q. mi' < q \<and> q < needle_index \<longrightarrow> ?M q < mm'"
      have "\<forall>q. start \<le> q \<and> q < needle_index \<longrightarrow> ?M q \<le> mm'"
        using a rest split by blast
      moreover from g(2) sp have "start \<le> mi'" by simp
      ultimately show ?thesis using g c by simp
    qed
  qed
  have eq': "find_longest_match_chain b idx start needle_index maxlen pos mm mi =
      (if (len > 2 \<and> len > mm \<and> len = maxlen) \<or> nxt < start then Some (mm', mi')
       else find_longest_match_chain b idx start needle_index maxlen nxt mm' mi')"
    unfolding eq mm'_def mi'_def by auto
  show ?case
  proof (cases "(len > 2 \<and> len > mm \<and> len = maxlen) \<or> nxt < start")
    case True
    then have "(len > 2 \<and> len > mm \<and> len = maxlen) \<or> nxt < start \<or> nxt = MATCH_NOT_FOUND"
      by blast
    moreover have "find_longest_match_chain b idx start needle_index maxlen pos mm mi =
        Some (mm', mi')"
      unfolding eq' by (simp only: True if_True)
    ultimately show ?thesis
      using final by simp
  next
    case go: False
    then have ns: "start \<le> nxt" by (simp add: not_less)
    have step: "find_longest_match_chain b idx start needle_index maxlen pos mm mi =
        find_longest_match_chain b idx start needle_index maxlen nxt mm' mi'"
      unfolding eq' by (simp only: go if_False)
    show ?thesis
    proof (cases "nxt = MATCH_NOT_FOUND")
      case True
      then have "find_longest_match_chain b idx start needle_index maxlen nxt mm' mi' = Some (mm', mi')"
        by (subst find_longest_match_chain.simps) simp
      moreover from True have
        "(len > 2 \<and> len > mm \<and> len = maxlen) \<or> nxt < start \<or> nxt = MATCH_NOT_FOUND"
        by blast
      note final [OF this]
      ultimately show ?thesis
        unfolding step by simp
    next
      case False
      with v have nv: "unat nxt < unat pos" "b ! unat nxt = b ! unat pos"
        by auto
      then have np: "nxt < pos"
        by (simp add: word_less_nat_alt)
      have cover: "q = pos \<or> pos < q \<or> (q < pos \<and> nxt < q)" if "nxt < q" for q
        using that by auto
      have inv2: "(mm' = 0 \<and> (\<forall>q. nxt < q \<and> q < needle_index \<longrightarrow> ?M q \<le> 2)) \<or>
          (2 < mm' \<and> nxt < mi' \<and> mi' < needle_index \<and> ?M mi' = mm' \<and>
           (\<forall>q. nxt < q \<and> q < needle_index \<longrightarrow> ?M q \<le> mm') \<and>
           (\<forall>q. mi' < q \<and> q < needle_index \<longrightarrow> ?M q < mm'))"
        using inv'
      proof (elim disjE conjE)
        assume z: "mm' = 0" and a: "\<forall>q. pos \<le> q \<and> q < needle_index \<longrightarrow> ?M q \<le> 2"
        have "?M q \<le> 2" if "nxt < q" "q < needle_index" for q
        proof (cases "q < pos")
          case True
          from gap [OF True] that(1) show ?thesis by simp
        next
          case False
          then have "pos \<le> q" by simp
          with a that(2) show ?thesis by simp
        qed
        with z show ?thesis by simp
      next
        assume g: "2 < mm'" "pos \<le> mi'" "mi' < needle_index" "?M mi' = mm'"
          and a: "\<forall>q. pos \<le> q \<and> q < needle_index \<longrightarrow> ?M q \<le> mm'"
          and c: "\<forall>q. mi' < q \<and> q < needle_index \<longrightarrow> ?M q < mm'"
        have "?M q \<le> mm'" if "nxt < q" "q < needle_index" for q
        proof (cases "q < pos")
          case True
          from gap [OF True] that(1) show ?thesis by simp
        next
          case False
          then have "pos \<le> q" by simp
          with a that(2) show ?thesis by simp
        qed
        moreover from g(2) np have "nxt < mi'" by simp
        ultimately show ?thesis using g c by simp
      qed
      have "unat nxt < k" using nv(1) k by simp
      moreover have "nxt < needle_index" using np pn by simp
      moreover have "b ! unat nxt = b ! unat needle_index" using nv(2) same by simp
      ultimately have "\<exists>rm ri. find_longest_match_chain b idx start needle_index maxlen nxt mm' mi'
            = Some (rm, ri) \<and>
         ((rm = 0 \<and> (\<forall>q. start \<le> q \<and> q < needle_index \<longrightarrow> ?M q \<le> 2)) \<or>
          (2 < rm \<and> start \<le> ri \<and> ri < needle_index \<and> ?M ri = rm \<and>
           (\<forall>q. start \<le> q \<and> q < needle_index \<longrightarrow> ?M q \<le> rm) \<and>
           (\<forall>q. ri < q \<and> q < needle_index \<longrightarrow> ?M q < rm)))"
        using less.IH [OF _ ok refl ns _ _ inv2] by blast
      then show ?thesis
        unfolding step .
    qed
  qed
qed

lemma find_longest_match_search:
  assumes se: "start \<le> end'" and ne: "start \<noteq> end'"
    and ok: "use_index \<longrightarrow> index_ok b idx (Suc (unat end'))"
  shows "\<exists>rm ri.
     (if use_index
      then (if idx ! unat end' < start then Some (0, MATCH_NOT_FOUND)
            else find_longest_match_chain b idx start end' maxlen (idx ! unat end') 0 MATCH_NOT_FOUND)
      else Some (find_longest_match_scan b start end' maxlen (end' - 1) 0 MATCH_NOT_FOUND))
       = Some (rm, ri) \<and>
     ((rm = 0 \<and> (\<forall>q. start \<le> q \<and> q < end' \<longrightarrow> match_len_loop b q end' maxlen 0 \<le> 2)) \<or>
      (2 < rm \<and> start \<le> ri \<and> ri < end' \<and> match_len_loop b ri end' maxlen 0 = rm \<and>
       (\<forall>q. start \<le> q \<and> q < end' \<longrightarrow> match_len_loop b q end' maxlen 0 \<le> rm) \<and>
       (\<forall>q. ri < q \<and> q < end' \<longrightarrow> match_len_loop b q end' maxlen 0 < rm)))"
proof (cases use_index)
  case False
  let ?M = "\<lambda>q. match_len_loop b q end' maxlen 0"
  obtain rm ri where
    scan: "find_longest_match_scan b start end' maxlen (end' - 1) 0 MATCH_NOT_FOUND = (rm, ri)"
    by (cases "find_longest_match_scan b start end' maxlen (end' - 1) 0 MATCH_NOT_FOUND")
  note wp = word_pred_facts [OF se ne [symmetric]]
  have init: "((0::u16) = 0 \<and> (\<forall>q. end' - 1 < q \<and> q < end' \<longrightarrow> ?M q \<le> 2)) \<or>
      (2 < (0::u16) \<and> end' - 1 < MATCH_NOT_FOUND \<and> MATCH_NOT_FOUND < end' \<and>
       ?M MATCH_NOT_FOUND = 0 \<and>
       (\<forall>q. end' - 1 < q \<and> q < end' \<longrightarrow> ?M q \<le> 0) \<and>
       (\<forall>q. MATCH_NOT_FOUND < q \<and> q < end' \<longrightarrow> ?M q < 0))"
    by (auto simp: wp(3))
  from find_longest_match_scan_spec [OF scan wp(1) wp(2) init] False scan
  show ?thesis by simp
next
  case True
  let ?M = "\<lambda>q. match_len_loop b q end' maxlen 0"
  define first where "first = idx ! unat end'"
  from True ok have iok: "index_ok b idx (Suc (unat end'))"
    by simp
  then have v: "(first = MATCH_NOT_FOUND \<and> (\<forall>r < unat end'. b ! r \<noteq> b ! unat end')) \<or>
      (unat first < unat end' \<and> b ! unat first = b ! unat end' \<and>
       (\<forall>r. unat first < r \<and> r < unat end' \<longrightarrow> b ! r \<noteq> b ! unat end'))"
    unfolding index_ok_def first_def by blast
  have nf: "unat MATCH_NOT_FOUND = 65535"
    by (simp add: MATCH_NOT_FOUND_def unsigned_minus_1_eq_mask mask_eq_exp_minus_1)
  have top: "unat w \<le> 65535" for w :: u16
    using unsigned_less [of w, where ?'a = nat] by simp
  have gap: "?M q = 0" if "q < end'" "first = MATCH_NOT_FOUND \<or> first < q" for q
  proof -
    have "b ! unat q \<noteq> b ! unat end'"
      using v that top [of end'] by (auto simp: word_less_nat_alt nf)
    then show ?thesis
      by (rule match_len_loop_first_differs)
  qed
  have none: "\<forall>q. start \<le> q \<and> q < end' \<longrightarrow> ?M q \<le> 2"
    if "first < start \<or> first = MATCH_NOT_FOUND"
  proof (intro allI impI)
    fix q assume q: "start \<le> q \<and> q < end'"
    with that have "first = MATCH_NOT_FOUND \<or> first < q" by auto
    with gap [of q] q show "?M q \<le> 2" by simp
  qed
  show ?thesis
  proof (cases "first < start")
    case lt: True
    with none True show ?thesis
      by (simp add: first_def)
  next
    case ge: False
    show ?thesis
    proof (cases "first = MATCH_NOT_FOUND")
      case nfd: True
      then have "find_longest_match_chain b idx start end' maxlen first 0 MATCH_NOT_FOUND
          = Some (0, MATCH_NOT_FOUND)"
        by (subst find_longest_match_chain.simps) simp
      with none nfd True ge show ?thesis
        by (simp add: first_def)
    next
      case False
      with v have fv: "unat first < unat end'" "b ! unat first = b ! unat end'"
        by auto
      then have fe: "first < end'"
        by (simp add: word_less_nat_alt)
      from ge have sf: "start \<le> first"
        by (simp add: not_less)
      have inv: "((0::u16) = 0 \<and> (\<forall>q. first < q \<and> q < end' \<longrightarrow> ?M q \<le> 2)) \<or>
          (2 < (0::u16) \<and> first < MATCH_NOT_FOUND \<and> MATCH_NOT_FOUND < end' \<and>
           ?M MATCH_NOT_FOUND = 0 \<and>
           (\<forall>q. first < q \<and> q < end' \<longrightarrow> ?M q \<le> 0) \<and>
           (\<forall>q. MATCH_NOT_FOUND < q \<and> q < end' \<longrightarrow> ?M q < 0))"
        using gap by auto
      from find_longest_match_chain_spec [OF iok refl sf fe fv(2) inv] True ge
      show ?thesis
        by (simp add: first_def)
    qed
  qed
qed

text \<open>
  What \<^verbatim>\<open>find_longest_match\<close> returns, in both builds, for \<open>start \<le> end\<close> with the
  \<open>maxlen\<close> bytes at \<open>end\<close> inside the buffer; with the index, under the condition that
  the index is what \<^verbatim>\<open>do_indexing\<close> is to build.  Either it answers
  \<^verbatim>\<open>MATCH_NOT_FOUND\<close>, and then no candidate position in \<open>[start, end - 1]\<close> matches on
  more than \<open>2\<close> bytes.  Or it answers the distance \<open>end - cand\<close> to a candidate \<open>cand\<close> in
  \<open>[start, end - 1]\<close> and a length that is the length of the match at \<open>cand\<close>, is greater
  than \<open>2\<close>, and is the greatest over all candidates; every candidate reached before
  \<open>cand\<close> (the more recent positions \<open>cand < q < end\<close>) has a strictly shorter match, so
  among the candidates of maximal length the first one reached is kept.
\<close>

lemma find_longest_match_longest:
  assumes "start \<le> end'"
    and "unat end' + unat maxlen \<le> length (hse_buffer hse)"
    and "use_index \<longrightarrow> index_ok (hse_buffer hse) (hse_search_index hse) (Suc (unat end'))"
  shows "\<exists>mp ml. find_longest_match use_index hse start end' maxlen = Some (mp, ml) \<and>
     ((mp = MATCH_NOT_FOUND \<and> ml = 0 \<and>
       (\<forall>q. start \<le> q \<and> q < end' \<longrightarrow>
          match_length_at (hse_buffer hse) (unat q) (unat end') (unat maxlen) \<le> 2)) \<or>
      (\<exists>cand. start \<le> cand \<and> cand < end' \<and> mp = end' - cand \<and> 2 < unat ml \<and>
         unat ml = match_length_at (hse_buffer hse) (unat cand) (unat end') (unat maxlen) \<and>
         (\<forall>q. start \<le> q \<and> q < end' \<longrightarrow>
            match_length_at (hse_buffer hse) (unat q) (unat end') (unat maxlen) \<le> unat ml) \<and>
         (\<forall>q. cand < q \<and> q < end' \<longrightarrow>
            match_length_at (hse_buffer hse) (unat q) (unat end') (unat maxlen) < unat ml)))"
proof (cases "start = end'")
  case True
  then show ?thesis
    by (auto simp: find_longest_match_def)
next
  case False
  let ?b = "hse_buffer hse"
  let ?M = "\<lambda>q. match_len_loop ?b q end' maxlen 0"
  let ?L = "\<lambda>q. match_length_at ?b (unat q) (unat end') (unat maxlen)"
  from find_longest_match_search [OF assms(1) False assms(3), of maxlen]
  obtain rm ri where
    search: "(if use_index
      then (if hse_search_index hse ! unat end' < start then Some (0, MATCH_NOT_FOUND)
            else find_longest_match_chain ?b (hse_search_index hse) start end' maxlen
                   (hse_search_index hse ! unat end') 0 MATCH_NOT_FOUND)
      else Some (find_longest_match_scan ?b start end' maxlen (end' - 1) 0 MATCH_NOT_FOUND))
       = Some (rm, ri)"
    and res: "(rm = 0 \<and> (\<forall>q. start \<le> q \<and> q < end' \<longrightarrow> ?M q \<le> 2)) \<or>
      (2 < rm \<and> start \<le> ri \<and> ri < end' \<and> ?M ri = rm \<and>
       (\<forall>q. start \<le> q \<and> q < end' \<longrightarrow> ?M q \<le> rm) \<and>
       (\<forall>q. ri < q \<and> q < end' \<longrightarrow> ?M q < rm))"
    by blast
  have lenq: "unat (?M q) = ?L q" if "q < end'" for q
    using assms(2) that by (intro match_len_loop_match_length_at) simp_all
  have eq: "find_longest_match use_index hse start end' maxlen =
      (if rm > 0 then Some (end' - ri, rm) else Some (MATCH_NOT_FOUND, 0))"
    using False unfolding find_longest_match_def search by simp
  from res show ?thesis
  proof (elim disjE conjE)
    assume z: "rm = 0" and a: "\<forall>q. start \<le> q \<and> q < end' \<longrightarrow> ?M q \<le> 2"
    have "?L q \<le> 2" if "start \<le> q" "q < end'" for q
    proof -
      from a that have "?M q \<le> 2" by simp
      then have "unat (?M q) \<le> 2" by (simp add: word_le_nat_alt)
      with lenq [OF that(2)] show ?thesis by simp
    qed
    with z eq show ?thesis by simp
  next
    assume g: "2 < rm" "start \<le> ri" "ri < end'" "?M ri = rm"
      and a: "\<forall>q. start \<le> q \<and> q < end' \<longrightarrow> ?M q \<le> rm"
      and c: "\<forall>q. ri < q \<and> q < end' \<longrightarrow> ?M q < rm"
    from g(1) have pos: "0 < rm" "2 < unat rm"
      by (simp_all add: word_less_nat_alt word_gt_0)
    have len: "unat rm = ?L ri"
      using lenq [OF g(3)] g(4) by simp
    have all: "?L q \<le> unat rm" if "start \<le> q" "q < end'" for q
    proof -
      from a that have "?M q \<le> rm" by simp
      then have "unat (?M q) \<le> unat rm" by (simp add: word_le_nat_alt)
      with lenq [OF that(2)] show ?thesis by simp
    qed
    have later: "?L q < unat rm" if "ri < q" "q < end'" for q
    proof -
      from c that have "?M q < rm" by simp
      then have "unat (?M q) < unat rm" by (simp add: word_less_nat_alt)
      with lenq [OF that(2)] show ?thesis by simp
    qed
    from pos eq have "find_longest_match use_index hse start end' maxlen = Some (end' - ri, rm)"
      by simp
    moreover have "\<exists>cand. start \<le> cand \<and> cand < end' \<and> end' - ri = end' - cand \<and> 2 < unat rm \<and>
         unat rm = ?L cand \<and>
         (\<forall>q. start \<le> q \<and> q < end' \<longrightarrow> ?L q \<le> unat rm) \<and>
         (\<forall>q. cand < q \<and> q < end' \<longrightarrow> ?L q < unat rm)"
      using g(2,3) pos(2) len all later by (intro exI [of _ ri]) simp
    ultimately show ?thesis by blast
  qed
qed

lemma find_longest_match_linear_example:
  "(let hse = snd (snd (heatshrink_encoder_sink (the (heatshrink_encoder_alloc 4 3 0 []))
               [0x61, 0x62, 0x63, 0x58, 0x61, 0x62, 0x63, 0x59, 0x61, 0x62, 0x63, 0x5A]))
    in (find_longest_match False hse 8 24 4,
        find_longest_match True (do_indexing True hse) 8 24 4,
        map (\<lambda>q. match_length_at (hse_buffer hse) q 24 4) [16, 20]))
   = (Some (4, 3), Some (4, 3), [3, 3])"
  by code_simp

text \<open>
  C7.  The claim is that \<^verbatim>\<open>find_longest_match\<close> returns the distance and length of a
  longest match among the candidates in \<open>[start, end - 1]\<close>.  In the build with the search
  index the function only looks at the offsets that the index chains from
  \<^verbatim>\<open>index[end]\<close>, and the index is what \<^verbatim>\<open>do_indexing\<close> left.  With \<open>W = 15\<close> and the
  input region full, the 16-bit \<^verbatim>\<open>end\<close> of \<^verbatim>\<open>do_indexing\<close> wraps to \<open>0\<close> and the index
  stays as it was (the defect of C9).  On the encoder allocated with \<open>W = 15\<close>, \<open>L = 3\<close>,
  after a sink of \<open>32768\<close> bytes \<open>0x61\<close> and \<^verbatim>\<open>do_indexing\<close>, for the search at the second
  input byte (\<open>start = 32768\<close>, \<open>end = 32769\<close>, \<open>maxlen = 8\<close>, the arguments of
  \<^verbatim>\<open>st_step_search\<close> at \<open>match_scan_index = 1\<close>): the candidate \<open>32768\<close> matches on \<open>8\<close>
  bytes, the search without the index returns distance \<open>1\<close> and length \<open>8\<close>, and the search
  with the index returns \<^verbatim>\<open>MATCH_NOT_FOUND\<close>.
\<close>

theorem indexed_search_misses_match:
  "(case heatshrink_encoder_alloc 15 3 0 [] of
      Some e \<Rightarrow>
        (let (r, n, e1) = heatshrink_encoder_sink e (replicate 32768 0x61);
             e2 = do_indexing True e1
         in (r, n, hse_state e1,
             match_length_at (hse_buffer e2) 32768 32769 8,
             find_longest_match False e2 32768 32769 8,
             find_longest_match True e2 32768 32769 8)))
   = (HSER_SINK_OK, Some 32768, HSES_FILLED, 8, Some (1, 8), Some (MATCH_NOT_FOUND, 0))"
proof -
  define E0 :: heatshrink_encoder where
    "E0 = \<lparr> hse_input_size = 0, hse_match_scan_index = 0, hse_match_length = 0,
        hse_match_pos = 0, hse_outgoing_bits = 0, hse_outgoing_bits_count = 0,
        hse_flags = 0, hse_state = HSES_NOT_FULL, hse_current_byte = 0,
        hse_bit_index = 0x80, hse_window_sz2 = 15, hse_lookahead_sz2 = 3,
        hse_search_index = replicate 65536 0,
        hse_buffer = replicate 65536 0 \<rparr>"
  define E1 :: heatshrink_encoder where
    "E1 = \<lparr> hse_input_size = 32768, hse_match_scan_index = 0, hse_match_length = 0,
        hse_match_pos = 0, hse_outgoing_bits = 0, hse_outgoing_bits_count = 0,
        hse_flags = 0, hse_state = HSES_FILLED, hse_current_byte = 0,
        hse_bit_index = 0x80, hse_window_sz2 = 15, hse_lookahead_sz2 = 3,
        hse_search_index = replicate 65536 0,
        hse_buffer = replicate 32768 0 @ replicate 32768 0x61 \<rparr>"
  have alloc: "heatshrink_encoder_alloc 15 3 0 [] = Some E0"
    by (simp add: heatshrink_encoder_alloc_def heatshrink_encoder_reset_def decoder_config_defs
        E0_def)
  have sink: "heatshrink_encoder_sink E0 (replicate 32768 0x61) = (HSER_SINK_OK, Some 32768, E1)"
    by (simp add: heatshrink_encoder_sink_def is_finishing_def FLAG_IS_FINISHING_def Let_def
        get_input_offset_def get_input_buffer_size_def memcpy_at_def E0_def E1_def)
  have idx: "do_indexing True E1 = E1"
    by (simp add: do_indexing_def get_input_offset_def get_input_buffer_size_def Let_def E1_def)
  have st: "hse_state E1 = HSES_FILLED"
    by (simp add: E1_def)
  have "take 8 (drop 32768 (hse_buffer E1)) = replicate 8 0x61"
    "take 8 (drop 32769 (hse_buffer E1)) = replicate 8 0x61"
    by (simp_all add: E1_def)
  then have len: "match_length_at (hse_buffer E1) 32768 32769 8 = 8"
    by (simp add: match_length_at_def common_prefix_length_same)
  have linear: "find_longest_match False E1 32768 32769 8 = Some (1, 8)"
    by (simp add: find_longest_match_def E1_def find_longest_match_scan.simps
        match_len_loop.simps nth_append MATCH_NOT_FOUND_def)
  have indexed: "find_longest_match True E1 32768 32769 8 = Some (MATCH_NOT_FOUND, 0)"
    by (simp add: find_longest_match_def E1_def)
  show ?thesis
    by (simp add: alloc sink idx st len linear indexed)
qed

section \<open>C1: the round trip\<close>

text \<open>
  \<^verbatim>\<open>heatshrink_encoder_alloc\<close> accepts \<open>L = W\<close>.  With \<open>L = W\<close> and the input region
  full, \<^verbatim>\<open>st_step_search\<close> finds \<^verbatim>\<open>msi >= input_size - lookahead_sz\<close> at \<open>msi = 0\<close>
  and goes to \<^verbatim>\<open>HSES_SAVE_BACKLOG\<close> without a search; \<^verbatim>\<open>save_backlog\<close> then moves the
  buffer by \<open>0\<close> bytes and frees nothing.  In such a state every sink accepts \<open>0\<close> bytes, and
  the poll after it writes nothing and leaves the encoder in such a state again.
\<close>

lemma encoder_stalled_sink:
  assumes "encoder_stalled hse"
  shows "heatshrink_encoder_sink hse in_buf =
           (HSER_SINK_OK, Some 0, hse\<lparr> hse_state := HSES_FILLED \<rparr>)"
  using assms
  by (simp add: encoder_stalled_def heatshrink_encoder_sink_def Let_def memcpy_at_def)

lemma do_indexing_only_index:
  "\<exists>idx. do_indexing use_index hse = hse\<lparr> hse_search_index := idx \<rparr>"
proof (cases use_index)
  case True
  then have "do_indexing use_index hse =
      hse\<lparr> hse_search_index := hse_search_index (do_indexing use_index hse) \<rparr>"
    by (simp add: do_indexing_def Let_def)
  then show ?thesis ..
next
  case False
  then have "do_indexing use_index hse = hse\<lparr> hse_search_index := hse_search_index hse \<rparr>"
    by (simp add: do_indexing_def)
  then show ?thesis ..
qed

lemma flags_backlog_not_finishing:
  fixes f :: byte
  shows "(f OR 0x08) AND 0x01 = f AND 0x01" and "(f OR 0x10) AND 0x01 = f AND 0x01"
  by (simp_all add: bit.conj_disj_distrib2)

lemma encoder_stalled_poll:
  assumes "encoder_stalled hse" and "out_buf \<noteq> []"
  shows "\<exists>hse'. heatshrink_encoder_poll use_index (hse\<lparr> hse_state := HSES_FILLED \<rparr>) out_buf =
             Some (HSER_POLL_EMPTY, hse',
                   \<lparr> buf = out_buf, buf_size = length out_buf, output_size = 0 \<rparr>) \<and>
           encoder_stalled hse' \<and> hse_buffer hse' = hse_buffer hse"
proof -
  define oi where "oi = \<lparr> buf = out_buf, buf_size = length out_buf, output_size = 0 \<rparr>"
  from assms(1) have st: "\<not> is_finishing hse" "hse_lookahead_sz2 hse = hse_window_sz2 hse"
    "hse_input_size hse = get_input_buffer_size hse" "hse_match_scan_index hse = 0"
    by (simp_all add: encoder_stalled_def)
  obtain idx where idx: "do_indexing use_index (hse\<lparr> hse_state := HSES_FILLED \<rparr>) =
      hse\<lparr> hse_state := HSES_FILLED, hse_search_index := idx \<rparr>"
    using do_indexing_only_index [of use_index "hse\<lparr> hse_state := HSES_FILLED \<rparr>"] by auto
  define h1 where "h1 = hse\<lparr> hse_state := HSES_SEARCH, hse_search_index := idx \<rparr>"
  define h2 where "h2 = hse\<lparr> hse_state := HSES_SAVE_BACKLOG, hse_search_index := idx \<rparr>"
  define h3 where "h3 = (save_backlog h2)\<lparr> hse_state := HSES_NOT_FULL \<rparr>"
  have s1: "encoder_poll_step use_index (hse\<lparr> hse_state := HSES_FILLED \<rparr>) oi = Some (None, h1, oi)"
    by (simp add: encoder_poll_step_def idx h1_def)
  have look: "get_lookahead_size h1 = hse_input_size h1"
    using st by (simp add: h1_def get_lookahead_size_def get_input_buffer_size_def)
  have nf1: "\<not> is_finishing h1" and msi1: "hse_match_scan_index h1 = 0"
    using st(1,4) by (simp_all add: h1_def is_finishing_def)
  have "st_step_search use_index h1 = Some (HSES_SAVE_BACKLOG, h1)"
    by (simp add: st_step_search_def Let_def look nf1 msi1)
  then have s2: "encoder_poll_step use_index h1 oi = Some (None, h2, oi)"
    by (simp add: encoder_poll_step_def h1_def h2_def)
  have "st_save_backlog h2 = (HSES_NOT_FULL, save_backlog h2)"
    using st(1) by (simp add: st_save_backlog_def h2_def is_finishing_def)
  then have s3: "encoder_poll_step use_index h2 oi = Some (None, h3, oi)"
    by (simp add: encoder_poll_step_def h2_def h3_def)
  have rem: "get_input_buffer_size h2 - hse_match_scan_index h2 = get_input_buffer_size h2"
    using st(4) by (simp add: h2_def)
  have state3: "hse_state h3 = HSES_NOT_FULL"
    by (simp add: h3_def)
  have nf3: "\<not> is_finishing h3"
    using st(1)
    by (simp add: h3_def save_backlog_def Let_def is_finishing_def FLAG_IS_FINISHING_def
        FLAG_BACKLOG_IS_PARTIAL_def FLAG_BACKLOG_IS_FILLED_def flags_backlog_not_finishing h2_def)
  have cfg3: "hse_lookahead_sz2 h3 = hse_window_sz2 h3"
    using st(2) by (simp add: h3_def save_backlog_def Let_def h2_def)
  have in3: "hse_input_size h3 = get_input_buffer_size h3"
    using st(3,4)
    by (simp add: h3_def save_backlog_def Let_def h2_def get_input_buffer_size_def)
  have msi3: "hse_match_scan_index h3 = 0"
    by (simp add: h3_def save_backlog_def Let_def)
  have buf3: "hse_buffer h3 = hse_buffer hse"
    using st(4) by (simp add: h3_def save_backlog_def Let_def h2_def)
  have s4: "encoder_poll_step use_index h3 oi = Some (Some HSER_POLL_EMPTY, h3, oi)"
    by (simp add: encoder_poll_step_def state3)
  have "encoder_poll_loop use_index (hse\<lparr> hse_state := HSES_FILLED \<rparr>) oi
      = encoder_poll_loop use_index h1 oi"
    by (subst encoder_poll_loop.simps) (simp add: s1)
  also have "\<dots> = encoder_poll_loop use_index h2 oi"
    by (subst encoder_poll_loop.simps) (simp add: s2)
  also have "\<dots> = encoder_poll_loop use_index h3 oi"
    by (subst encoder_poll_loop.simps) (simp add: s3)
  also have "\<dots> = Some (HSER_POLL_EMPTY, h3, oi)"
    by (subst encoder_poll_loop.simps) (simp add: s4)
  finally have "heatshrink_encoder_poll use_index (hse\<lparr> hse_state := HSES_FILLED \<rparr>) out_buf =
      Some (HSER_POLL_EMPTY, h3, oi)"
    using assms(2) by (simp add: heatshrink_encoder_poll_def oi_def)
  moreover have "encoder_stalled h3"
    using state3 nf3 cfg3 in3 msi3 by (simp add: encoder_stalled_def)
  ultimately show ?thesis
    using buf3 by (simp add: oi_def)
qed

text \<open>
  C1.  The claim is that for every input of at most \<open>128 * 1024\<close> bytes and every \<open>W\<close> in
  \<open>[4, 15]\<close>, \<open>L\<close> in \<open>[3, W]\<close>, encoding and then decoding gives the input back.  With
  \<open>W = L = 4\<close> and the \<open>17\<close> bytes \<open>1, \<dots>, 17\<close>: the first sink accepts \<open>16\<close> bytes and the
  poll after it writes nothing; from then on the sink of the last byte accepts \<open>0\<close> bytes
  and the poll writes nothing, the encoder staying as described above, so the byte \<open>17\<close>
  cannot be handed over.  After \<^verbatim>\<open>heatshrink_encoder_finish\<close> the poll writes \<open>18\<close> bytes, and
  the decoder gives the first \<open>16\<close> input bytes for them and reports
  \<^verbatim>\<open>HSDR_FINISH_DONE\<close>.
\<close>

theorem encoder_stalls_when_lookahead_equals_window:
  "(case heatshrink_encoder_alloc 4 4 0 [] of
      Some e \<Rightarrow>
        (let X = [1, 2, 3, 4, 5, 6, 7, 8, 9, 10, 11, 12, 13, 14, 15, 16, 17];
             (r1, n1, e1) = heatshrink_encoder_sink e X
         in (case heatshrink_encoder_poll False e1 (replicate 32 0) of
               Some (p1, e2, oi1) \<Rightarrow>
                 (let (r2, n2, e3) = heatshrink_encoder_sink e2 (drop 16 X)
                  in (case heatshrink_encoder_poll False e3 (replicate 32 0) of
                        Some (p2, e4, oi2) \<Rightarrow>
                          (let (fr, e5) = heatshrink_encoder_finish e4
                           in (case heatshrink_encoder_poll False e5 (replicate 32 0) of
                                 Some (p3, e6, oi3) \<Rightarrow>
                                   (let Y = take (unat (output_size oi3)) (buf oi3)
                                    in (case heatshrink_decoder_alloc 256 4 4 of
                                          Some d \<Rightarrow>
                                            (case heatshrink_decoder_sink d Y of
                                               Inr (sr, sn, d1) \<Rightarrow>
                                                 (case heatshrink_decoder_poll d1 (replicate 32 0) of
                                                    Some (Inr (dp, d2, oi4)) \<Rightarrow>
                                                      ((r1, n1, p1, output_size oi1, encoder_stalled e2),
                                                       (r2, n2, p2, output_size oi2, encoder_stalled e4),
                                                       (fr, p3, hse_state e6, length Y),
                                                       (sr, sn, dp, heatshrink_decoder_finish d2),
                                                       take (unat (output_size oi4)) (buf oi4)))))))))))))
   = ((HSER_SINK_OK, Some 16, HSER_POLL_EMPTY, 0, True),
      (HSER_SINK_OK, Some 0, HSER_POLL_EMPTY, 0, True),
      (HSER_FINISH_MORE, HSER_POLL_EMPTY, HSES_DONE, 18),
      (HSDR_SINK_OK, 18, HSDR_POLL_EMPTY, HSDR_FINISH_DONE),
      [1, 2, 3, 4, 5, 6, 7, 8, 9, 10, 11, 12, 13, 14, 15, 16])"
  by code_simp

text \<open>
  The round trip is also lost with \<open>L < W\<close> when the compressed bytes reach the decoder
  in more than one sink.  The comment of \<^verbatim>\<open>get_bits\<close> says that it suspends at once when
  it cannot get \<open>count\<close> bits, since the bits read before a suspension are not counted;
  the test before the loop is only made when \<open>input_size = 0\<close>.  With \<open>W = 9\<close>, \<open>L = 3\<close>
  and the input \<^verbatim>\<open>abcdefgabc\<close>, the encoder writes \<open>10\<close> bytes; the tag bit of the
  back-reference is the last bit of the eighth.  A decoder that is given the first \<open>9\<close>
  bytes and then the last one reads \<open>8\<close> of the \<open>9\<close> index bits from the ninth byte,
  suspends, and starts the request again at the tenth: it yields \<^verbatim>\<open>abcdefg\<close> and
  \<^verbatim>\<open>heatshrink_decoder_finish\<close> answers \<^verbatim>\<open>HSDR_FINISH_DONE\<close>.
\<close>

lemma decoder_loses_backref_across_sinks:
  "(case heatshrink_encoder_alloc 9 3 0 [] of
      Some e \<Rightarrow>
        (let (r1, n1, e1) = heatshrink_encoder_sink e
                              [0x61, 0x62, 0x63, 0x64, 0x65, 0x66, 0x67, 0x61, 0x62, 0x63];
             (fr, e2) = heatshrink_encoder_finish e1
         in (case heatshrink_encoder_poll False e2 (replicate 32 0) of
               Some (p1, e3, oi1) \<Rightarrow>
                 (let Y = take (unat (output_size oi1)) (buf oi1)
                  in (case heatshrink_decoder_alloc 256 9 3 of
                        Some d \<Rightarrow>
                          (case heatshrink_decoder_sink d (take 9 Y) of
                             Inr (sr1, sn1, d1) \<Rightarrow>
                               (case heatshrink_decoder_poll d1 (replicate 32 0) of
                                  Some (Inr (dp1, d2, oi2)) \<Rightarrow>
                                    (case heatshrink_decoder_sink d2 (drop 9 Y) of
                                       Inr (sr2, sn2, d3) \<Rightarrow>
                                         (case heatshrink_decoder_poll d3 (replicate 32 0) of
                                            Some (Inr (dp2, d4, oi3)) \<Rightarrow>
                                              (n1, p1, hse_state e3, Y,
                                               (sr1, sn1, dp1, take (unat (output_size oi2)) (buf oi2)),
                                               (sr2, sn2, dp2, take (unat (output_size oi3)) (buf oi3)),
                                               hsd_state d4, heatshrink_decoder_finish d4))))))))))
   = (Some 10, HSER_POLL_EMPTY, HSES_DONE,
      [0xB0, 0xD8, 0xAC, 0x76, 0x4B, 0x2D, 0x9A, 0xCE, 0x03, 0x20],
      (HSDR_SINK_OK, 9, HSDR_POLL_EMPTY, [0x61, 0x62, 0x63, 0x64, 0x65, 0x66, 0x67]),
      (HSDR_SINK_OK, 1, HSDR_POLL_EMPTY, []),
      HSDS_BACKREF_INDEX, HSDR_FINISH_DONE)"
  by code_simp

section \<open>C9: the search index and the output\<close>

lemmas encoder_step_defs = encoder_poll_step_def do_indexing_def st_step_search_def find_longest_match_def
  st_yield_tag_bit_def hse_st_yield_literal_def st_yield_br_index_def st_yield_br_length_def
  st_save_backlog_def save_backlog_def st_flush_bit_buffer_def
  add_tag_bit_def push_bits_def push_outgoing_bits_def push_literal_byte_def
  get_input_offset_def get_input_buffer_size_def get_lookahead_size_def
  is_finishing_def backlog_is_partial_def backlog_is_filled_def on_final_literal_def
  has_literal_def can_take_byte_def
  FLAG_IS_FINISHING_def FLAG_HAS_LITERAL_def FLAG_ON_FINAL_LITERAL_def
  FLAG_BACKLOG_IS_PARTIAL_def FLAG_BACKLOG_IS_FILLED_def MATCH_NOT_FOUND_def
  HEATSHRINK_LITERAL_MARKER_def HEATSHRINK_BACKREF_MARKER_def Let_def

lemma push_bits_loop_numeral:
  "push_bits_loop (numeral k) bits hse oi =
     (let i = pred_numeral k;
          bit = bits AND push_bit i 1;
          hse1 = (if bit \<noteq> 0
                  then hse\<lparr> hse_current_byte := hse_current_byte hse OR hse_bit_index hse \<rparr>
                  else hse);
          hse2 = hse1\<lparr> hse_bit_index := drop_bit 1 (hse_bit_index hse1) \<rparr>
      in if hse_bit_index hse2 = 0
         then push_bits_loop i bits
                (hse2\<lparr> hse_bit_index := 0x80, hse_current_byte := 0 \<rparr>)
                (oi\<lparr> buf := (buf oi)[unat (output_size oi) := hse_current_byte hse2],
                      output_size := output_size oi + 1 \<rparr>)
         else push_bits_loop i bits hse2 oi)"
  by (simp only: numeral_eq_Suc push_bits_loop.simps Let_def)

text \<open>
  C9.  The claim is that the output is the same with and without the search index.
  \<^verbatim>\<open>do_indexing\<close> keeps \<^verbatim>\<open>input_sz = 2 * buf_sz\<close> and
  \<^verbatim>\<open>end = input_offset + hse->input_size\<close> in \<^verbatim>\<open>uint16_t\<close>.  With \<open>W = 15\<close> (accepted by
  \<^verbatim>\<open>heatshrink_encoder_alloc\<close>) and the input region full, both are \<open>65536\<close> and wrap to
  \<open>0\<close>: the \<^verbatim>\<open>memset\<close> clears nothing, the loop does not run, and the index stays as
  it was (here: as allocated, all entries \<open>0\<close>).  For \<open>W = 15\<close>, \<open>L = 3\<close> and an input of
  \<open>32768\<close> bytes \<open>0x61\<close>, sunk in one call, a poll into a two-byte buffer writes
  \<open>0xB0 0xD8\<close> with the index (two literals: \<^verbatim>\<open>index[end] = 0 < start\<close>, no match) and
  \<open>0xB0 0x80\<close> without it (a literal, then a back-reference of distance \<open>1\<close>).
\<close>

theorem search_index_changes_output:
  "(case heatshrink_encoder_alloc 15 3 0 [] of
      Some e \<Rightarrow>
        (let (r, n, e1) = heatshrink_encoder_sink e (replicate 32768 0x61)
         in (case heatshrink_encoder_poll True e1 [0, 0] of
               Some (p, e2, oi) \<Rightarrow>
                 (case heatshrink_encoder_poll False e1 [0, 0] of
                    Some (p', e2', oi') \<Rightarrow>
                      (r, n, hse_state e1, hse_search_index (do_indexing True e1) = hse_search_index e1,
                       (p, buf oi), (p', buf oi'))))))
   = (HSER_SINK_OK, Some 32768, HSES_FILLED, True,
      (HSER_POLL_MORE, [0xB0, 0xD8]), (HSER_POLL_MORE, [0xB0, 0x80]))"
proof -
  define E0 :: heatshrink_encoder where
    "E0 = \<lparr> hse_input_size = 0, hse_match_scan_index = 0, hse_match_length = 0,
        hse_match_pos = 0, hse_outgoing_bits = 0, hse_outgoing_bits_count = 0,
        hse_flags = 0, hse_state = HSES_NOT_FULL, hse_current_byte = 0,
        hse_bit_index = 0x80, hse_window_sz2 = 15, hse_lookahead_sz2 = 3,
        hse_search_index = replicate 65536 0,
        hse_buffer = replicate 65536 0 \<rparr>"
  define E1 :: heatshrink_encoder where
    "E1 = \<lparr> hse_input_size = 32768, hse_match_scan_index = 0, hse_match_length = 0,
        hse_match_pos = 0, hse_outgoing_bits = 0, hse_outgoing_bits_count = 0,
        hse_flags = 0, hse_state = HSES_FILLED, hse_current_byte = 0,
        hse_bit_index = 0x80, hse_window_sz2 = 15, hse_lookahead_sz2 = 3,
        hse_search_index = replicate 65536 0,
        hse_buffer = replicate 32768 0 @ replicate 32768 0x61 \<rparr>"
  have alloc: "heatshrink_encoder_alloc 15 3 0 [] = Some E0"
    by (simp add: heatshrink_encoder_alloc_def heatshrink_encoder_reset_def decoder_config_defs
        E0_def)
  have sink: "heatshrink_encoder_sink E0 (replicate 32768 0x61) = (HSER_SINK_OK, Some 32768, E1)"
    by (simp add: heatshrink_encoder_sink_def is_finishing_def FLAG_IS_FINISHING_def Let_def
        get_input_offset_def get_input_buffer_size_def memcpy_at_def E0_def E1_def)
  have st: "hse_state E1 = HSES_FILLED"
    by (simp add: E1_def)
  have idx: "hse_search_index (do_indexing True E1) = hse_search_index E1"
    by (simp add: do_indexing_def get_input_offset_def get_input_buffer_size_def Let_def E1_def)
  have indexed: "\<exists>e oi. heatshrink_encoder_poll True E1 [0, 0] = Some (HSER_POLL_MORE, e, oi) \<and>
      buf oi = [0xB0, 0xD8]"
    by (simp add: heatshrink_encoder_poll_def E1_def)
      (subst encoder_poll_loop.simps, simp add: encoder_step_defs push_bits_loop_numeral nth_append)+
  have linear: "\<exists>e oi. heatshrink_encoder_poll False E1 [0, 0] = Some (HSER_POLL_MORE, e, oi) \<and>
      buf oi = [0xB0, 0x80]"
    by (simp add: heatshrink_encoder_poll_def E1_def)
      (subst encoder_poll_loop.simps, simp add: encoder_step_defs push_bits_loop_numeral nth_append
        find_longest_match_scan.simps match_len_loop.simps)+
  from indexed linear show ?thesis
    by (auto simp: alloc sink st idx)
qed

section \<open>C8: a run of one byte\<close>

subsection \<open>The search index of \<^verbatim>\<open>do_indexing\<close>\<close>




subsection \<open>The encoder's bit output\<close>











lemma rev_upt_Suc_low: "j \<le> k \<Longrightarrow> rev [j ..< k] @ [j - 1] = rev [j - 1 ..< k]" if "0 < j"
  using that by (cases j) (simp_all add: upt_conv_Cons)


subsection \<open>The encoder on a run\<close>

lemma run_data_update [simp]:
  "run_data ui a n (hse\<lparr> hse_state := st \<rparr>) = run_data ui a n hse"
  "run_data ui a n (hse\<lparr> hse_match_scan_index := msi \<rparr>) = run_data ui a n hse"
  "run_data ui a n (hse\<lparr> hse_match_length := ml \<rparr>) = run_data ui a n hse"
  "run_data ui a n (hse\<lparr> hse_match_pos := mp \<rparr>) = run_data ui a n hse"
  "run_data ui a n (hse\<lparr> hse_outgoing_bits := ob \<rparr>) = run_data ui a n hse"
  "run_data ui a n (hse\<lparr> hse_outgoing_bits_count := obc \<rparr>) = run_data ui a n hse"
  "run_data ui a n (hse\<lparr> hse_flags := fl \<rparr>) = run_data ui a n hse"
  "run_data ui a n (hse\<lparr> hse_current_byte := cb \<rparr>) = run_data ui a n hse"
  "run_data ui a n (hse\<lparr> hse_bit_index := bi \<rparr>) = run_data ui a n hse"
  by (simp_all add: run_data_def encoder_config_ok_def)

lemma encoder_emitted_update [simp]:
  "encoder_emitted (hse\<lparr> hse_state := st \<rparr>) oi bits = encoder_emitted hse oi bits"
  "encoder_emitted (hse\<lparr> hse_match_scan_index := msi \<rparr>) oi bits = encoder_emitted hse oi bits"
  "encoder_emitted (hse\<lparr> hse_match_length := ml \<rparr>) oi bits = encoder_emitted hse oi bits"
  "encoder_emitted (hse\<lparr> hse_match_pos := mp \<rparr>) oi bits = encoder_emitted hse oi bits"
  "encoder_emitted (hse\<lparr> hse_outgoing_bits := ob \<rparr>) oi bits = encoder_emitted hse oi bits"
  "encoder_emitted (hse\<lparr> hse_outgoing_bits_count := obc \<rparr>) oi bits = encoder_emitted hse oi bits"
  "encoder_emitted (hse\<lparr> hse_flags := fl \<rparr>) oi bits = encoder_emitted hse oi bits"
  by (simp_all add: encoder_emitted_def)







































subsection \<open>The decoder's bit input\<close>









lemma decoder_bits_acc [simp]:
  "decoder_bits (hsd\<lparr> hsd_bit_accumulator := x \<rparr>) bits = decoder_bits hsd bits"
  by (simp add: decoder_bits_def decoder_cur_def)


subsection \<open>The decoder on the symbols of a run\<close>



lemma decoder_bits_state [simp]:
  "decoder_bits (hsd\<lparr> hsd_state := st \<rparr>) bits = decoder_bits hsd bits"
  "decoder_bits (hsd\<lparr> hsd_head_index := hx \<rparr>) bits = decoder_bits hsd bits"
  "decoder_bits (hsd\<lparr> hsd_output_index := x \<rparr>) bits = decoder_bits hsd bits"
  "decoder_bits (hsd\<lparr> hsd_output_count := y \<rparr>) bits = decoder_bits hsd bits"
  by (simp_all add: decoder_bits_def decoder_cur_def)









lemma decoder_ready_state [simp]:
  "decoder_ready (hsd\<lparr> hsd_state := st \<rparr>) = decoder_ready hsd"
  by (simp add: decoder_ready_def decoder_config_ok_def)

lemma decoder_last_state [simp]:
  "decoder_last a (hsd\<lparr> hsd_state := st \<rparr>) = decoder_last a hsd"
  by (simp add: decoder_last_def window_mask_def)







subsection \<open>Encoding and decoding a run\<close>




text \<open>
  The bytes of the tests \<^verbatim>\<open>encoder_should_emit_series_of_same_byte_as_literal_then_backref\<close>
  and \<^verbatim>\<open>decoder_poll_should_expand_short_self_overlapping_backref\<close> of
  \<^verbatim>\<open>test_heatshrink_dynamic.c\<close>: with \<open>W = 8\<close> and \<open>L = 7\<close>, \<^verbatim>\<open>aaaaa\<close> is encoded as
  \<open>B0 80 01 80\<close>, a literal and a back-reference of distance \<open>1\<close> and length \<open>4\<close>, and
  these bytes decode to \<^verbatim>\<open>aaaaa\<close>.
\<close>

lemma run_of_five_example:
  "(case heatshrink_encoder_alloc 8 7 0 [] of
      Some e \<Rightarrow>
        (let (r, n, e1) = heatshrink_encoder_sink e [0x61, 0x61, 0x61, 0x61, 0x61];
             (fr, e2) = heatshrink_encoder_finish e1
         in (case heatshrink_encoder_poll False e2 (replicate 16 0) of
               Some (pr, e3, oi) \<Rightarrow>
                 (case heatshrink_encoder_poll True e2 (replicate 16 0) of
                    Some (pr', e3', oi') \<Rightarrow>
                      (case heatshrink_decoder_alloc 256 8 7 of
                         Some d \<Rightarrow>
                           (case heatshrink_decoder_sink d [0xB0, 0x80, 0x01, 0x80] of
                              Inr (sr, sn, d1) \<Rightarrow>
                                (case heatshrink_decoder_poll d1 (replicate 6 0) of
                                   Some (Inr (dr, d2, doi)) \<Rightarrow>
                                     (take (unat (output_size oi)) (buf oi),
                                      take (unat (output_size oi')) (buf oi'),
                                      run_symbols 7 0x61 5,
                                      dr, take (unat (output_size doi)) (buf doi)))))))))
   = ([0xB0, 0x80, 0x01, 0x80], [0xB0, 0x80, 0x01, 0x80],
      [Literal 0x61, Backref 1 4],
      HSDR_POLL_EMPTY, [0x61, 0x61, 0x61, 0x61, 0x61])"
  by code_simp

text \<open>
  A run longer than the window takes several sinks.  For \<open>W = 4\<close>, \<open>L = 3\<close> and forty
  bytes \<open>0x61\<close>, sunk as the encoder accepts them with a poll after each sink and
  \<^verbatim>\<open>heatshrink_encoder_finish\<close> after the last, the sinks take \<open>16\<close>, \<open>9\<close>, \<open>8\<close> and \<open>7\<close>
  bytes and the polls write \<open>B0 83 83 83 83 83 00\<close> in both builds: a literal and five
  back-references of distance \<open>1\<close> with lengths \<open>8, 8, 8, 8, 7\<close>, which decode to the
  forty bytes.
\<close>

lemma run_longer_than_window_example:
  "map (\<lambda>ui.
     (case heatshrink_encoder_alloc 4 3 0 [] of
        Some e \<Rightarrow>
          (let X = replicate 40 (0x61 :: byte);
               (r1, n1, e1) = heatshrink_encoder_sink e X
           in (case heatshrink_encoder_poll ui e1 (replicate 16 0) of
                 Some (p1, e2, oi1) \<Rightarrow>
                   (let (r2, n2, e3) = heatshrink_encoder_sink e2 (drop 16 X)
                    in (case heatshrink_encoder_poll ui e3 (replicate 16 0) of
                          Some (p2, e4, oi2) \<Rightarrow>
                            (let (r3, n3, e5) = heatshrink_encoder_sink e4 (drop 25 X)
                             in (case heatshrink_encoder_poll ui e5 (replicate 16 0) of
                                   Some (p3, e6, oi3) \<Rightarrow>
                                     (let (r4, n4, e7) = heatshrink_encoder_sink e6 (drop 33 X);
                                          (fr, e8) = heatshrink_encoder_finish e7
                                      in (case heatshrink_encoder_poll ui e8 (replicate 16 0) of
                                            Some (p4, e9, oi4) \<Rightarrow>
                                              ([n1, n2, n3, n4], [p1, p2, p3, p4], hse_state e9,
                                               take (unat (output_size oi1)) (buf oi1) @
                                               take (unat (output_size oi2)) (buf oi2) @
                                               take (unat (output_size oi3)) (buf oi3) @
                                               take (unat (output_size oi4)) (buf oi4))))))))))))
     [False, True]
   = replicate 2
       ([Some 16, Some 9, Some 8, Some 7],
        [HSER_POLL_EMPTY, HSER_POLL_EMPTY, HSER_POLL_EMPTY, HSER_POLL_EMPTY], HSES_DONE,
        [0xB0, 0x83, 0x83, 0x83, 0x83, 0x83, 0x00])"
  by code_simp

lemma run_longer_than_window_decoded:
  "(bytes_bits [0xB0, 0x83, 0x83, 0x83, 0x83, 0x83, 0x00] =
      concat (map (symbol_bits 4 3)
                [Literal 0x61, Backref 1 8, Backref 1 8, Backref 1 8, Backref 1 8, Backref 1 7])
      @ replicate 7 False,
    case heatshrink_decoder_alloc 16 4 3 of
      Some d \<Rightarrow>
        (case heatshrink_decoder_sink d [0xB0, 0x83, 0x83, 0x83, 0x83, 0x83, 0x00] of
           Inr (sr, sn, d1) \<Rightarrow>
             (case heatshrink_decoder_poll d1 (replicate 48 0) of
                Some (Inr (dr, d2, oi)) \<Rightarrow>
                  (sn, dr, take (unat (output_size oi)) (buf oi) = replicate 40 0x61,
                   heatshrink_decoder_finish d2))))
   = (True, 7, HSDR_POLL_EMPTY, True, HSDR_FINISH_DONE)"
  by code_simp


end
